theory Spec2Isabelle
  imports Complex_Main "HOL-Library.Word"
begin

unbundle bit_operations_syntax

section \<open>Data model\<close>

text \<open>
  A Go \<open>string\<close> and a Go \<open>[]byte\<close> are both sequences of bytes; the conversions
  \<open>[]byte(text)\<close> and \<open>string(tempBytes[i:j])\<close> of \<open>splitText\<close> copy the bytes unchanged.
  Both are modelled as lists of 8-bit words, and \<open>len\<close> is the byte length as a Go \<open>int\<close>.

  Go's \<open>int\<close> is modelled as \<open>int\<close>. Offsets into the text and lengths are bounded by
  the length of the text, which a Go \<open>int\<close> holds; the one sum with an operand that is not
  an offset of the text is \<open>startIndex + maxSize\<close>, where \<open>maxSize\<close> is any \<open>int\<close> of the
  caller, and it is wrapped to 64 bits by \<open>int64\<close>.
\<close>

type_synonym byte = "8 word"

abbreviation len :: "'a list \<Rightarrow> int" where
  "len xs \<equiv> int (length xs)"

definition int64 :: "int \<Rightarrow> int" where
  "int64 x = (x + 2 ^ 63) mod 2 ^ 64 - 2 ^ 63"

text \<open>Run-time panics of Go that indexing and slicing can raise.\<close>

datatype panic = IndexOutOfRange | SliceBoundsOutOfRange

text \<open>\<open>bs[i]\<close>, \<open>bs[lo:hi]\<close> and \<open>bs[lo:]\<close> with Go's bounds checks.\<close>

definition index :: "'a list \<Rightarrow> int \<Rightarrow> panic + 'a" where
  "index bs i =
     (if 0 \<le> i \<and> i < len bs then Inr (bs ! nat i) else Inl IndexOutOfRange)"

definition slice :: "'a list \<Rightarrow> int \<Rightarrow> int \<Rightarrow> panic + 'a list" where
  "slice bs lo hi =
     (if 0 \<le> lo \<and> lo \<le> hi \<and> hi \<le> len bs
      then Inr (take (nat (hi - lo)) (drop (nat lo) bs))
      else Inl SliceBoundsOutOfRange)"

definition sliceFrom :: "'a list \<Rightarrow> int \<Rightarrow> panic + 'a list" where
  "sliceFrom bs lo = slice bs lo (len bs)"

text \<open>The struct \<open>Config\<close>; \<open>'f\<close> stands for \<open>float64\<close>, which no definition below inspects.\<close>

record 'f Config =
  LanguageCode :: "byte list"
  VoiceName :: "byte list"
  InputFilename :: "byte list"
  OutputFilename :: "byte list"
  MaxInputBytes :: int
  SpeakingRate :: 'f
  Pitch :: 'f

section \<open>The library functions that \<open>splitText\<close> calls\<close>

text \<open>
  \<open>utf8.RuneStart\<close>, \<open>utf8.DecodeRune\<close> and \<open>strings.LastIndex\<close> belong to the Go
  standard library, not to this repository. They are modelled after the library's
  source (\<open>unicode/utf8/utf8.go\<close>) and documentation.
\<close>

text \<open>\<open>func RuneStart(b byte) bool { return b&0xC0 != 0x80 }\<close>\<close>

definition RuneStart :: "byte \<Rightarrow> bool" where
  "RuneStart b \<longleftrightarrow> b AND 0xC0 \<noteq> 0x80"

text \<open>
  The table \<open>first\<close> of \<open>unicode/utf8\<close>: information about the first byte of an encoding
  (\<open>as = 0xF0\<close> for ASCII, \<open>xx = 0xF1\<close> for an invalid first byte, otherwise the index of
  the accept range in the high nibble and the size in the low one).
\<close>

definition first :: "byte \<Rightarrow> byte" where
  "first b =
     (if b < 0x80 then 0xF0
      else if b < 0xC2 then 0xF1
      else if b < 0xE0 then 0x02
      else if b = 0xE0 then 0x13
      else if b < 0xED then 0x03
      else if b = 0xED then 0x23
      else if b < 0xF0 then 0x03
      else if b = 0xF0 then 0x34
      else if b < 0xF4 then 0x04
      else if b = 0xF4 then 0x44
      else 0xF1)"

text \<open>The array \<open>acceptRanges\<close>: the range of valid second bytes, as \<open>(lo, hi)\<close>.\<close>

definition acceptRanges :: "byte \<Rightarrow> byte \<times> byte" where
  "acceptRanges i =
     (if i = 0 then (0x80, 0xBF)
      else if i = 1 then (0xA0, 0xBF)
      else if i = 2 then (0x80, 0x9F)
      else if i = 3 then (0x90, 0xBF)
      else if i = 4 then (0x80, 0x8F)
      else (0, 0))"

text \<open>
  The second result (the width in bytes) of \<open>utf8.DecodeRune(p)\<close>; \<open>splitText\<close> discards
  the first. An empty \<open>p\<close> gives 0, an invalid encoding gives 1.
\<close>

definition DecodeRune_size :: "byte list \<Rightarrow> int" where
  "DecodeRune_size p =
     (let n = length p in
      if n < 1 then 0
      else
        let p0 = p ! 0; x = first p0 in
        if x \<ge> 0xF0 then 1
        else
          let sz = unat (x AND 7); accept = acceptRanges (drop_bit 4 x) in
          if n < sz then 1
          else
            let b1 = p ! 1 in
            if b1 < fst accept \<or> snd accept < b1 then 1
            else if sz \<le> 2 then 2
            else
              let b2 = p ! 2 in
              if b2 < 0x80 \<or> 0xBF < b2 then 1
              else if sz \<le> 3 then 3
              else
                let b3 = p ! 3 in
                if b3 < 0x80 \<or> 0xBF < b3 then 1 else 4)"

text \<open>
  \<open>strings.LastIndex(s, substr)\<close>: the byte index of the last instance of \<open>substr\<close> in
  \<open>s\<close>, or \<open>-1\<close> if there is none (and \<open>len(s)\<close> for the empty \<open>substr\<close>).
  \<open>lastIndexScan\<close> walks through \<open>s\<close> with the current offset \<open>i\<close> and remembers in
  \<open>best\<close> the last offset at which \<open>substr\<close> was seen.
\<close>

fun lastIndexScan :: "byte list \<Rightarrow> byte list \<Rightarrow> int \<Rightarrow> int \<Rightarrow> int" where
  "lastIndexScan [] substr i best = (if substr = [] then i else best)"
| "lastIndexScan (b # s) substr i best =
     lastIndexScan s substr (i + 1)
       (if take (length substr) (b # s) = substr then i else best)"

definition LastIndex :: "byte list \<Rightarrow> byte list \<Rightarrow> int" where
  "LastIndex s substr = lastIndexScan s substr 0 (- 1)"

section \<open>The boundary search \<open>findSplitPoint\<close>\<close>

text \<open>
  The two lists of marks, as the bytes of the string literals of the source:
  newline, the ideographic full stop, the fullwidth exclamation and question marks,
  \<open>.\<close>, \<open>!\<close>, \<open>?\<close>; then the fullwidth comma and semicolon, \<open>,\<close> and \<open>;\<close>.
\<close>

definition strongPuncs :: "byte list list" where
  "strongPuncs =
     [[0x0A], [0xE3, 0x80, 0x82], [0xEF, 0xBC, 0x81], [0xEF, 0xBC, 0x9F],
      [0x2E], [0x21], [0x3F]]"

definition clausePuncs :: "byte list list" where
  "clausePuncs = [[0xEF, 0xBC, 0x8C], [0xEF, 0xBC, 0x9B], [0x2C], [0x3B]]"

text \<open>The body of both \<open>range\<close> loops: one mark \<open>punc\<close>, the current \<open>bestSplit\<close>.\<close>

definition puncStep :: "byte list \<Rightarrow> int \<Rightarrow> byte list \<Rightarrow> byte list \<Rightarrow> int \<Rightarrow> int" where
  "puncStep s lookBack sub punc bestSplit =
     (let idx = LastIndex sub punc in
      if idx \<noteq> - 1 then
        (let byteIdx = len s - lookBack + idx + len punc in
         if len s - byteIdx < 150 \<or> bestSplit = - 1 then byteIdx else bestSplit)
      else bestSplit)"

definition findSplitPoint :: "byte list \<Rightarrow> panic + int" where
  "findSplitPoint s =
     (let lookBack = (if len s < 100 then len s else 100) in
      case sliceFrom s (len s - lookBack) of
        Inl p \<Rightarrow> Inl p
      | Inr sub \<Rightarrow>
          let bestSplit = fold (puncStep s lookBack sub) strongPuncs (- 1);
              bestSplit = (if bestSplit = - 1
                           then fold (puncStep s lookBack sub) clausePuncs bestSplit
                           else bestSplit)
          in Inr (if bestSplit \<noteq> - 1 then bestSplit else len s))"

section \<open>The loop of \<open>splitText\<close>\<close>

text \<open>
  The inner loop that moves \<open>endIndex\<close> back to the first byte of a rune:
  \<open>for endIndex > startIndex && !utf8.RuneStart(tempBytes[endIndex]) { endIndex-- }\<close>.
\<close>

function scanBack :: "byte list \<Rightarrow> int \<Rightarrow> int \<Rightarrow> panic + int" where
  "scanBack bs startIndex endIndex =
     (if endIndex > startIndex then
        (case index bs endIndex of
           Inl p \<Rightarrow> Inl p
         | Inr b \<Rightarrow>
             if \<not> RuneStart b then scanBack bs startIndex (endIndex - 1)
             else Inr endIndex)
      else Inr endIndex)"
  by pat_completeness auto
termination
  by (relation "measure (\<lambda>(bs, startIndex, endIndex). nat (endIndex - startIndex))") auto

text \<open>
  The branch \<open>if endIndex <= startIndex\<close>: advance by one rune, at least one byte, and
  not beyond the end of the text.
\<close>

definition forcedEnd :: "byte list \<Rightarrow> int \<Rightarrow> panic + int" where
  "forcedEnd bs startIndex =
     (case sliceFrom bs startIndex of
        Inl p \<Rightarrow> Inl p
      | Inr rest \<Rightarrow>
          let runeSize = DecodeRune_size rest;
              endIndex = startIndex + max runeSize 1
          in Inr (if endIndex > len bs then len bs else endIndex))"

text \<open>
  The provisional end offset of the \<open>else\<close> branch, before the search for a mark:
  \<open>endIndex\<close> is the budget-derived offset \<open>startIndex + maxSize\<close>.
\<close>

definition hardEnd :: "byte list \<Rightarrow> int \<Rightarrow> int \<Rightarrow> panic + int" where
  "hardEnd bs startIndex endIndex =
     (case scanBack bs startIndex endIndex of
        Inl p \<Rightarrow> Inl p
      | Inr e \<Rightarrow> if e \<le> startIndex then forcedEnd bs startIndex else Inr e)"

text \<open>The search for a mark in the provisional fragment and the acceptance test.\<close>

definition refineEnd :: "byte list \<Rightarrow> int \<Rightarrow> int \<Rightarrow> panic + int" where
  "refineEnd bs startIndex endIndex =
     (case slice bs startIndex endIndex of
        Inl p \<Rightarrow> Inl p
      | Inr potentialChunk \<Rightarrow>
          (case findSplitPoint potentialChunk of
             Inl p \<Rightarrow> Inl p
           | Inr splitPoint \<Rightarrow>
               Inr (if splitPoint > 0 \<and> splitPoint < len potentialChunk
                    then (if splitPoint > len potentialChunk div 2 \<or> len potentialChunk < 100
                          then startIndex + splitPoint else endIndex)
                    else endIndex)))"

text \<open>One pass through the body of the outer loop: the \<open>endIndex\<close> of the next fragment.\<close>

definition chunkEnd :: "byte list \<Rightarrow> int \<Rightarrow> int \<Rightarrow> panic + int" where
  "chunkEnd bs maxSize startIndex =
     (let endIndex = int64 (startIndex + maxSize) in
      if endIndex \<ge> len bs then Inr (len bs)
      else
        (case hardEnd bs startIndex endIndex of
           Inl p \<Rightarrow> Inl p
         | Inr e \<Rightarrow> refineEnd bs startIndex e))"

section \<open>Every pass through the loop body returns and advances\<close>

lemma int64_le:
  assumes "- (2 ^ 63) \<le> x"
  shows "int64 x \<le> x"
proof -
  from assms have "0 \<le> x + 2 ^ 63" by simp
  then have "(x + 2 ^ 63) mod 2 ^ 64 \<le> x + 2 ^ 63" by (rule zmod_le_nonneg_dividend)
  then show ?thesis by (simp add: int64_def)
qed

lemma int64_id: "- (2 ^ 63) \<le> x \<Longrightarrow> x < 2 ^ 63 \<Longrightarrow> int64 x = x"
  unfolding int64_def by simp

lemma slice_Inr:
  "0 \<le> lo \<Longrightarrow> lo \<le> hi \<Longrightarrow> hi \<le> len bs \<Longrightarrow>
   slice bs lo hi = Inr (take (nat (hi - lo)) (drop (nat lo) bs))"
  by (simp add: slice_def)

lemma findSplitPoint_total: "\<exists>sp. findSplitPoint s = Inr sp"
  by (simp add: findSplitPoint_def sliceFrom_def slice_def Let_def)

lemma scanBack_ok:
  "0 \<le> startIndex \<Longrightarrow> endIndex < len bs \<Longrightarrow>
   \<exists>e. scanBack bs startIndex endIndex = Inr e \<and> e \<le> max startIndex endIndex \<and>
       (endIndex \<le> startIndex \<longrightarrow> e = endIndex) \<and>
       (startIndex < endIndex \<longrightarrow> startIndex \<le> e) \<and>
       (startIndex < e \<longrightarrow> RuneStart (bs ! nat e))"
proof (induction bs startIndex endIndex rule: scanBack.induct)
  case (1 bs startIndex endIndex)
  show ?case
  proof (cases "endIndex > startIndex")
    case False
    then show ?thesis by (subst scanBack.simps) simp
  next
    case True
    with "1.prems" have ix: "index bs endIndex = Inr (bs ! nat endIndex)"
      by (simp add: index_def)
    show ?thesis
    proof (cases "RuneStart (bs ! nat endIndex)")
      case True
      with \<open>endIndex > startIndex\<close> ix show ?thesis by (subst scanBack.simps) simp
    next
      case False
      from "1.IH" [OF True ix False] "1.prems"
      obtain e where "scanBack bs startIndex (endIndex - 1) = Inr e"
        "e \<le> max startIndex (endIndex - 1)"
        "endIndex - 1 \<le> startIndex \<longrightarrow> e = endIndex - 1"
        "startIndex < endIndex - 1 \<longrightarrow> startIndex \<le> e"
        "startIndex < e \<longrightarrow> RuneStart (bs ! nat e)"
        by auto
      with True ix False show ?thesis
        by (subst scanBack.simps) auto
    qed
  qed
qed

lemma DecodeRune_size_range: "0 \<le> DecodeRune_size p \<and> DecodeRune_size p \<le> 4"
  by (simp add: DecodeRune_size_def Let_def)

lemma forcedEnd_ok:
  "0 \<le> startIndex \<Longrightarrow> startIndex < len bs \<Longrightarrow>
   \<exists>e. forcedEnd bs startIndex = Inr e \<and> startIndex < e \<and> e \<le> len bs"
  by (auto simp: forcedEnd_def sliceFrom_def slice_def Let_def)

lemma hardEnd_ok:
  assumes "0 \<le> startIndex" "startIndex < len bs" "endIndex < len bs"
  shows "\<exists>e. hardEnd bs startIndex endIndex = Inr e \<and> startIndex < e \<and> e \<le> len bs"
proof -
  from scanBack_ok [OF assms(1,3)] obtain e where
    e: "scanBack bs startIndex endIndex = Inr e" "e \<le> max startIndex endIndex" by blast
  show ?thesis
  proof (cases "e \<le> startIndex")
    case True
    with e forcedEnd_ok [OF assms(1,2)] show ?thesis by (simp add: hardEnd_def)
  next
    case False
    with e assms show ?thesis by (simp add: hardEnd_def)
  qed
qed

lemma refineEnd_ok:
  assumes "0 \<le> startIndex" "startIndex < e" "e \<le> len bs"
  shows "\<exists>e'. refineEnd bs startIndex e = Inr e' \<and> startIndex < e' \<and> e' \<le> e"
proof -
  obtain sp where sp: "findSplitPoint (take (nat (e - startIndex)) (drop (nat startIndex) bs)) = Inr sp"
    using findSplitPoint_total by blast
  have l: "len (take (nat (e - startIndex)) (drop (nat startIndex) bs)) = e - startIndex"
    using assms by simp
  show ?thesis
    unfolding refineEnd_def using assms sp l
    by (simp add: slice_Inr del: length_take length_drop)
qed

lemma chunkEnd_ok:
  assumes "0 \<le> startIndex" "startIndex < len bs"
  shows "\<exists>e. chunkEnd bs maxSize startIndex = Inr e \<and> startIndex < e \<and> e \<le> len bs"
proof (cases "int64 (startIndex + maxSize) \<ge> len bs")
  case True
  with assms show ?thesis by (simp add: chunkEnd_def)
next
  case False
  then have "int64 (startIndex + maxSize) < len bs" by simp
  from hardEnd_ok [OF assms this] obtain e where
    e: "hardEnd bs startIndex (int64 (startIndex + maxSize)) = Inr e" "startIndex < e" "e \<le> len bs"
    by blast
  from refineEnd_ok [OF assms(1) e(2,3)] e False show ?thesis
    by (auto simp: chunkEnd_def)
qed

section \<open>\<open>splitText\<close>\<close>

text \<open>
  The outer loop \<open>for startIndex < len(tempBytes)\<close>, with the slice \<open>chunks\<close> as an
  accumulator. It terminates because a pass that returns moves \<open>startIndex\<close> forward.
\<close>

function splitLoop :: "byte list \<Rightarrow> int \<Rightarrow> int \<Rightarrow> byte list list \<Rightarrow> panic + byte list list" where
  "splitLoop bs maxSize startIndex chunks =
     (if startIndex < len bs then
        (case chunkEnd bs maxSize startIndex of
           Inl p \<Rightarrow> Inl p
         | Inr endIndex \<Rightarrow>
             (case slice bs startIndex endIndex of
                Inl p \<Rightarrow> Inl p
              | Inr chunk \<Rightarrow> splitLoop bs maxSize endIndex (chunks @ [chunk])))
      else Inr chunks)"
  by pat_completeness auto
termination
proof (relation "measure (\<lambda>(bs, maxSize, startIndex, chunks). nat (len bs - startIndex))")
  show "wf (measure (\<lambda>(bs, maxSize, startIndex, chunks). nat (len bs - startIndex)))"
    by simp
next
  fix bs :: "byte list" and maxSize startIndex endIndex :: int
    and chunks :: "byte list list" and chunk :: "byte list"
  assume lt: "startIndex < len bs"
    and ce: "chunkEnd bs maxSize startIndex = Inr endIndex"
    and sl: "slice bs startIndex endIndex = Inr chunk"
  from sl have "0 \<le> startIndex"
    by (simp add: slice_def split: if_splits)
  from chunkEnd_ok [OF this lt, of maxSize] ce have "startIndex < endIndex" by simp
  with lt show "((bs, maxSize, endIndex, chunks @ [chunk]), (bs, maxSize, startIndex, chunks))
      \<in> measure (\<lambda>(bs, maxSize, startIndex, chunks). nat (len bs - startIndex))"
    by simp
qed

text \<open>
  \<open>splitText\<close>: the loop from offset 0 with no fragment yet. The call of \<open>log.Printf\<close>
  before the return only writes a log line.
\<close>

definition splitText :: "byte list \<Rightarrow> int \<Rightarrow> panic + byte list list" where
  "splitText text maxSize = splitLoop text maxSize 0 []"

text \<open>
  The call in \<open>main\<close>: \<open>textChunks := splitText(inputText, 200)\<close>, after \<open>cfg\<close> has been
  loaded from the configuration file and \<open>inputText\<close> read from \<open>cfg.InputFilename\<close>.
\<close>

definition main_textChunks :: "'f Config \<Rightarrow> byte list \<Rightarrow> panic + byte list list" where
  "main_textChunks cfg inputText = splitText inputText 200"

section \<open>Notions that the claims speak about\<close>

text \<open>
  \<open>occursAt s p i\<close>: the mark \<open>p\<close> occurs in \<open>s\<close> at byte offset \<open>i\<close>.
  \<open>window s\<close>: the last 100 bytes of \<open>s\<close>, all of \<open>s\<close> if it is shorter; this is the
  string \<open>sub\<close> of \<open>findSplitPoint\<close>.
\<close>

definition occursAt :: "byte list \<Rightarrow> byte list \<Rightarrow> nat \<Rightarrow> bool" where
  "occursAt s p i \<longleftrightarrow> i + length p \<le> length s \<and> take (length p) (drop i s) = p"

definition window :: "byte list \<Rightarrow> byte list" where
  "window s = drop (length s - 100) s"

text \<open>\<open>markEnd s p\<close>: the offset in \<open>s\<close> just after the last occurrence of \<open>p\<close> in the window.\<close>

definition markEnd :: "byte list \<Rightarrow> byte list \<Rightarrow> int" where
  "markEnd s p = len s - len (window s) + LastIndex (window s) p + len p"

text \<open>
  Well-formed UTF-8 (the Unicode Standard, table 3-7, which is also what Go's
  \<open>utf8.Valid\<close> accepts). \<open>cont b\<close>: \<open>b\<close> is a continuation byte. \<open>encodedChar c\<close>: the
  bytes \<open>c\<close> are exactly one encoded character. \<open>leadLen b\<close>: the length that the first
  byte \<open>b\<close> announces, 0 if no character starts with \<open>b\<close>. \<open>validUTF8 bs\<close>: \<open>bs\<close> is a
  sequence of encoded characters.
\<close>

definition cont :: "byte \<Rightarrow> bool" where
  "cont b \<longleftrightarrow> 0x80 \<le> b \<and> b \<le> 0xBF"

fun encodedChar :: "byte list \<Rightarrow> bool" where
  "encodedChar [b0] = (b0 < 0x80)"
| "encodedChar [b0, b1] = (0xC2 \<le> b0 \<and> b0 \<le> 0xDF \<and> cont b1)"
| "encodedChar [b0, b1, b2] =
     ((b0 = 0xE0 \<and> 0xA0 \<le> b1 \<and> b1 \<le> 0xBF \<or>
       0xE1 \<le> b0 \<and> b0 \<le> 0xEC \<and> cont b1 \<or>
       b0 = 0xED \<and> 0x80 \<le> b1 \<and> b1 \<le> 0x9F \<or>
       0xEE \<le> b0 \<and> b0 \<le> 0xEF \<and> cont b1) \<and> cont b2)"
| "encodedChar [b0, b1, b2, b3] =
     ((b0 = 0xF0 \<and> 0x90 \<le> b1 \<and> b1 \<le> 0xBF \<or>
       0xF1 \<le> b0 \<and> b0 \<le> 0xF3 \<and> cont b1 \<or>
       b0 = 0xF4 \<and> 0x80 \<le> b1 \<and> b1 \<le> 0x8F) \<and> cont b2 \<and> cont b3)"
| "encodedChar _ = False"

definition leadLen :: "byte \<Rightarrow> nat" where
  "leadLen b =
     (if b < 0x80 then 1
      else if 0xC2 \<le> b \<and> b \<le> 0xDF then 2
      else if 0xE0 \<le> b \<and> b \<le> 0xEF then 3
      else if 0xF0 \<le> b \<and> b \<le> 0xF4 then 4
      else 0)"

lemma encodedChar_nonempty: "encodedChar c \<Longrightarrow> c \<noteq> []"
  by auto

function validUTF8 :: "byte list \<Rightarrow> bool" where
  "validUTF8 bs =
     (if bs = [] then True
      else if encodedChar (take (leadLen (hd bs)) bs)
        then validUTF8 (drop (leadLen (hd bs)) bs)
        else False)"
  by pat_completeness auto
termination
proof (relation "measure length")
  show "wf (measure length)" by simp
next
  fix bs :: "byte list"
  assume "bs \<noteq> []" and "encodedChar (take (leadLen (hd bs)) bs)"
  then have "leadLen (hd bs) \<noteq> 0" by (auto dest: encodedChar_nonempty)
  with \<open>bs \<noteq> []\<close> show "(drop (leadLen (hd bs)) bs, bs) \<in> measure length"
    by simp
qed

section \<open>What the whole run returns\<close>

text \<open>
  The loop returns, its fragments are consecutive slices that make up the rest of the
  text, none is empty, and a property \<open>P\<close> that every pass gives its fragment (with
  an invariant \<open>Q\<close> of the offsets the loop reaches) holds of them all.
\<close>

declare splitLoop.simps [simp del]

lemma splitLoop_pieces:
  "(\<And>s e. 0 \<le> s \<Longrightarrow> s < len bs \<Longrightarrow> Q s \<Longrightarrow> chunkEnd bs maxSize s = Inr e \<Longrightarrow>
                   P (take (nat (e - s)) (drop (nat s) bs)) \<and> Q e) \<Longrightarrow>
   0 \<le> startIndex \<Longrightarrow> startIndex \<le> len bs \<Longrightarrow> Q startIndex \<Longrightarrow>
         \<exists>pieces. splitLoop bs maxSize startIndex chunks = Inr (chunks @ pieces) \<and>
           concat pieces = drop (nat startIndex) bs \<and>
           (\<forall>c \<in> set pieces. c \<noteq> [] \<and> P c)"
proof (induction bs maxSize startIndex chunks rule: splitLoop.induct)
  case (1 bs maxSize startIndex chunks)
  note step = "1.prems"(1) and nonneg = "1.prems"(2) and le = "1.prems"(3) and q = "1.prems"(4)
  show ?case
  proof (cases "startIndex < len bs")
    case False
    with le show ?thesis
      by (subst splitLoop.simps) simp
  next
    case True
    from chunkEnd_ok [OF nonneg True, of maxSize] obtain e where
      e: "chunkEnd bs maxSize startIndex = Inr e" "startIndex < e" "e \<le> len bs" by blast
    define c where "c = take (nat (e - startIndex)) (drop (nat startIndex) bs)"
    have sl: "slice bs startIndex e = Inr c"
      using nonneg e by (simp add: slice_Inr c_def)
    from nonneg e have "0 \<le> e" by simp
    from step [OF nonneg True q e(1)] have pc: "P c" and qe: "Q e"
      by (simp_all add: c_def)
    from "1.IH" [OF True e(1) sl step \<open>0 \<le> e\<close> e(3) qe] obtain pieces where
      p: "splitLoop bs maxSize e (chunks @ [c]) = Inr ((chunks @ [c]) @ pieces)"
        "concat pieces = drop (nat e) bs" "\<forall>c \<in> set pieces. c \<noteq> [] \<and> P c"
      by blast
    have cne: "c \<noteq> []" using nonneg e by (simp add: c_def)
    have "c @ drop (nat e) bs = drop (nat startIndex) bs"
    proof -
      have "nat e = nat startIndex + nat (e - startIndex)" using nonneg e by simp
      then have "drop (nat e) bs = drop (nat (e - startIndex)) (drop (nat startIndex) bs)"
        by (simp add: add.commute)
      then show ?thesis unfolding c_def by (simp only: append_take_drop_id)
    qed
    with p pc cne have
      "splitLoop bs maxSize startIndex chunks = Inr (chunks @ (c # pieces)) \<and>
       concat (c # pieces) = drop (nat startIndex) bs \<and>
       (\<forall>c \<in> set (c # pieces). c \<noteq> [] \<and> P c)"
      using True e(1) sl by (subst splitLoop.simps) simp
    then show ?thesis by blast
  qed
qed

lemma splitText_pieces:
  assumes "\<And>s e. 0 \<le> s \<Longrightarrow> s < len text \<Longrightarrow> Q s \<Longrightarrow> chunkEnd text maxSize s = Inr e \<Longrightarrow>
                   P (take (nat (e - s)) (drop (nat s) text)) \<and> Q e"
    and "Q 0"
  shows "\<exists>chunks. splitText text maxSize = Inr chunks \<and> concat chunks = text \<and>
           (\<forall>c \<in> set chunks. c \<noteq> [] \<and> P c)"
proof -
  have "\<exists>pieces. splitLoop text maxSize 0 [] = Inr ([] @ pieces) \<and>
           concat pieces = drop (nat 0) text \<and> (\<forall>c \<in> set pieces. c \<noteq> [] \<and> P c)"
    by (rule splitLoop_pieces [where Q = Q]) (use assms in simp_all)
  then show ?thesis by (simp add: splitText_def)
qed

section \<open>What the boundary search returns\<close>

lemma occursAt_Nil: "p \<noteq> [] \<Longrightarrow> \<not> occursAt [] p j"
  by (simp add: occursAt_def)

lemma occursAt_Cons_0: "occursAt (b # s) p 0 \<longleftrightarrow> take (length p) (b # s) = p"
proof
  assume "take (length p) (b # s) = p"
  then have "length (take (length p) (b # s)) = length p" by simp
  then have "length p \<le> length (b # s)" by simp
  with \<open>take (length p) (b # s) = p\<close> show "occursAt (b # s) p 0"
    by (simp add: occursAt_def)
qed (simp add: occursAt_def)

lemma occursAt_Cons_Suc: "occursAt (b # s) p (Suc j) \<longleftrightarrow> occursAt s p j"
  by (simp add: occursAt_def)

lemma lastIndexScan_cases:
  "p \<noteq> [] \<Longrightarrow>
   (lastIndexScan s p i best = best \<and> (\<forall>j. \<not> occursAt s p j)) \<or>
   (\<exists>j. lastIndexScan s p i best = i + int j \<and> occursAt s p j \<and>
        (\<forall>k>j. \<not> occursAt s p k))"
proof (induction s arbitrary: i best)
  case Nil
  then show ?case by (simp add: occursAt_Nil)
next
  case (Cons b s)
  define best' where "best' = (if take (length p) (b # s) = p then i else best)"
  have step: "lastIndexScan (b # s) p i best = lastIndexScan s p (i + 1) best'"
    by (simp add: best'_def)
  from Cons.IH [OF Cons.prems, of "i + 1" best']
  consider (none) "lastIndexScan s p (i + 1) best' = best'" "\<forall>j. \<not> occursAt s p j"
    | (some) j where "lastIndexScan s p (i + 1) best' = i + 1 + int j" "occursAt s p j"
        "\<forall>k>j. \<not> occursAt s p k"
    by blast
  then show ?case
  proof cases
    case none
    show ?thesis
    proof (cases "take (length p) (b # s) = p")
      case True
      then have "occursAt (b # s) p 0" by (simp add: occursAt_Cons_0)
      moreover have "\<forall>k>0. \<not> occursAt (b # s) p k"
      proof (intro allI impI)
        fix k :: nat assume "0 < k"
        then obtain k' where "k = Suc k'" by (cases k) auto
        with none(2) show "\<not> occursAt (b # s) p k" by (simp add: occursAt_Cons_Suc)
      qed
      moreover have "lastIndexScan (b # s) p i best = i + int 0"
        using step none(1) True by (simp add: best'_def)
      ultimately show ?thesis by blast
    next
      case False
      have "\<forall>j. \<not> occursAt (b # s) p j"
      proof
        fix j show "\<not> occursAt (b # s) p j"
          using False none(2) by (cases j) (simp_all add: occursAt_Cons_0 occursAt_Cons_Suc)
      qed
      moreover have "lastIndexScan (b # s) p i best = best"
        using step none(1) False by (simp add: best'_def)
      ultimately show ?thesis by blast
    qed
  next
    case some
    have "occursAt (b # s) p (Suc j)" using some(2) by (simp add: occursAt_Cons_Suc)
    moreover have "\<forall>k>Suc j. \<not> occursAt (b # s) p k"
    proof (intro allI impI)
      fix k assume "Suc j < k"
      then obtain k' where "k = Suc k'" "j < k'" by (cases k) auto
      with some(3) show "\<not> occursAt (b # s) p k" by (simp add: occursAt_Cons_Suc)
    qed
    moreover have "lastIndexScan (b # s) p i best = i + int (Suc j)"
      using step some(1) by simp
    ultimately show ?thesis by blast
  qed
qed

lemma LastIndex_absent:
  "p \<noteq> [] \<Longrightarrow> LastIndex s p = - 1 \<longleftrightarrow> (\<forall>j. \<not> occursAt s p j)"
  using lastIndexScan_cases [of p s 0 "- 1"] by (auto simp: LastIndex_def)

lemma LastIndex_present:
  assumes "p \<noteq> []" and "LastIndex s p \<noteq> - 1"
  shows "\<exists>j. LastIndex s p = int j \<and> occursAt s p j \<and> (\<forall>k>j. \<not> occursAt s p k)"
  using lastIndexScan_cases [OF assms(1), of s 0 "- 1"] assms(2) by (auto simp: LastIndex_def)

lemma sliceFrom_window:
  "sliceFrom s (len s - (if len s < 100 then len s else 100)) = Inr (window s)"
proof (cases "len s < 100")
  case True
  then show ?thesis by (simp add: sliceFrom_def slice_def window_def)
next
  case False
  then have "nat (len s - 100) = length s - 100" by simp
  with False show ?thesis by (simp add: sliceFrom_def slice_def window_def)
qed

lemma len_window: "len (window s) = (if len s < 100 then len s else 100)"
  by (auto simp: window_def)

lemma puncStep_window:
  assumes "p \<noteq> []"
  shows "puncStep s (len (window s)) (window s) p best =
           (if LastIndex (window s) p \<noteq> - 1 then markEnd s p else best)"
proof (cases "LastIndex (window s) p = - 1")
  case True
  then show ?thesis by (simp add: puncStep_def)
next
  case False
  from LastIndex_present [OF assms False] obtain j where "LastIndex (window s) p = int j"
    by blast
  moreover have "len (window s) \<le> 100" by (simp add: len_window)
  ultimately have "len s - (len s - len (window s) + LastIndex (window s) p + len p) < 150"
    by simp
  with False show ?thesis by (simp add: puncStep_def Let_def markEnd_def)
qed

lemma markEnd_nonneg:
  assumes "p \<noteq> []" and "LastIndex (window s) p \<noteq> - 1"
  shows "0 < markEnd s p"
proof -
  from LastIndex_present [OF assms] obtain j where "LastIndex (window s) p = int j" by blast
  moreover have "len (window s) \<le> len s" by (simp add: window_def)
  moreover have "0 < len p" using assms(1) by simp
  ultimately show ?thesis unfolding markEnd_def by linarith
qed

lemma fold_puncStep_absent:
  "\<forall>q \<in> set ps. q \<noteq> [] \<and> LastIndex (window s) q = - 1 \<Longrightarrow>
   fold (puncStep s (len (window s)) (window s)) ps best = best"
  by (induction ps arbitrary: best) (simp_all add: puncStep_window)

lemma fold_puncStep_last:
  assumes "\<forall>q \<in> set post. q \<noteq> [] \<and> LastIndex (window s) q = - 1"
    and "p \<noteq> []" and "LastIndex (window s) p \<noteq> - 1"
  shows "fold (puncStep s (len (window s)) (window s)) (pre @ p # post) best = markEnd s p"
  using assms by (simp add: fold_puncStep_absent puncStep_window)

lemma findSplitPoint_window:
  "findSplitPoint s =
     (let step = puncStep s (len (window s)) (window s);
          bestSplit = fold step strongPuncs (- 1);
          bestSplit = (if bestSplit = - 1 then fold step clausePuncs bestSplit else bestSplit)
      in Inr (if bestSplit \<noteq> - 1 then bestSplit else len s))"
proof (cases "length s < 100")
  case True
  with sliceFrom_window [of s] have "sliceFrom s 0 = Inr (window s)" by simp
  moreover from True have "len (window s) = len s" by (simp add: len_window)
  ultimately show ?thesis using True by (simp add: findSplitPoint_def Let_def)
next
  case False
  with sliceFrom_window [of s] have "sliceFrom s (len s - 100) = Inr (window s)" by simp
  moreover from False have "len (window s) = 100" by (simp add: len_window)
  ultimately show ?thesis using False by (simp add: findSplitPoint_def Let_def)
qed

lemma puncs_nonempty: "\<forall>q \<in> set strongPuncs \<union> set clausePuncs. q \<noteq> []"
  by (simp add: strongPuncs_def clausePuncs_def)

section \<open>Well-formed UTF-8 and the library functions\<close>

declare validUTF8.simps [simp del]

lemmas byte_nat = word_le_nat_alt word_less_nat_alt word_unat_eq_iff

lemma encodedChar_leadLen: "encodedChar c \<Longrightarrow> leadLen (hd c) = length c"
  by (erule encodedChar.elims) (auto simp: leadLen_def cont_def byte_nat)

lemma encodedChar_hd: "encodedChar c \<Longrightarrow> \<not> cont (hd c)"
  by (erule encodedChar.elims) (auto simp: cont_def byte_nat)

lemma encodedChar_tail: "encodedChar c \<Longrightarrow> 0 < i \<Longrightarrow> i < length c \<Longrightarrow> cont (c ! i)"
  by (erule encodedChar.elims) (auto simp: cont_def less_Suc_eq nth_Cons' byte_nat)


lemma RuneStart_cont: "RuneStart b \<longleftrightarrow> \<not> cont b"
proof -
  have "(0xC0 :: byte) = NOT (mask 6)" by (simp add: mask_eq_exp_minus_1)
  then have "b AND 0xC0 = b AND NOT (mask 6)" by simp
  also have "\<dots> = push_bit 6 (drop_bit 6 b)"
    by (rule bit_eqI) (auto simp: bit_simps)
  finally have split: "b AND 0xC0 = push_bit 6 (drop_bit 6 b)" .
  have "unat b < 256" using unsigned_less [of b, where 'a = nat] by simp
  then have "unat (push_bit 6 (drop_bit 6 b)) = 128 \<longleftrightarrow> unat b div 64 = 2"
    by (simp add: push_bit_eq_mult drop_bit_eq_div unat_div unat_word_ariths)
  then have "b AND 0xC0 = 0x80 \<longleftrightarrow> unat b div 64 = 2"
    by (simp add: split word_unat_eq_iff)
  also have "\<dots> \<longleftrightarrow> cont b"
    unfolding cont_def word_le_nat_alt by simp arith
  finally show ?thesis by (simp add: RuneStart_def)
qed

lemma validUTF8_Nil: "validUTF8 []"
  by (simp add: validUTF8.simps)

lemma validUTF8_char_append:
  assumes "encodedChar c"
  shows "validUTF8 (c @ r) = validUTF8 r"
proof -
  from assms have "c \<noteq> []" by (rule encodedChar_nonempty)
  then have "hd (c @ r) = hd c" by simp
  with assms have "leadLen (hd (c @ r)) = length c" by (simp add: encodedChar_leadLen)
  with assms \<open>c \<noteq> []\<close> show ?thesis
    by (subst validUTF8.simps) simp
qed

lemma validUTF8_char: "encodedChar c \<Longrightarrow> validUTF8 c"
  using validUTF8_char_append [of c "[]"] by (simp add: validUTF8_Nil)

lemma validUTF8_decomp:
  assumes "validUTF8 bs" and "bs \<noteq> []"
  shows "\<exists>c r. bs = c @ r \<and> encodedChar c \<and> validUTF8 r"
proof -
  let ?n = "leadLen (hd bs)"
  from assms have "encodedChar (take ?n bs)" and "validUTF8 (drop ?n bs)"
    by (subst (asm) validUTF8.simps, simp split: if_splits)+
  moreover have "bs = take ?n bs @ drop ?n bs" by simp
  ultimately show ?thesis by blast
qed

lemma validUTF8_induct [consumes 1, case_names Nil Char]:
  assumes "validUTF8 bs" and "P []"
    and "\<And>c r. encodedChar c \<Longrightarrow> validUTF8 r \<Longrightarrow> P r \<Longrightarrow> P (c @ r)"
  shows "P bs"
  using assms(1)
proof (induction bs rule: length_induct)
  case (1 bs)
  show ?case
  proof (cases "bs = []")
    case True
    with assms(2) show ?thesis by simp
  next
    case False
    from validUTF8_decomp [OF "1.prems" False] obtain c r where
      cr: "bs = c @ r" "encodedChar c" "validUTF8 r" by blast
    from cr(2) have "c \<noteq> []" by (rule encodedChar_nonempty)
    with cr(1) have "length r < length bs" by simp
    with "1.IH" cr(3) have "P r" by blast
    with cr assms(3) show ?thesis by blast
  qed
qed

lemma validUTF8_append: "validUTF8 a \<Longrightarrow> validUTF8 b \<Longrightarrow> validUTF8 (a @ b)"
  by (induction a rule: validUTF8_induct) (simp_all add: validUTF8_char_append)

lemma validUTF8_suffix: "validUTF8 a \<Longrightarrow> validUTF8 (a @ b) \<Longrightarrow> validUTF8 b"
  by (induction a rule: validUTF8_induct) (simp_all add: validUTF8_char_append)

text \<open>\<open>validUTF8\<close> holds exactly of the concatenations of encoded characters.\<close>

lemma validUTF8_iff_concat:
  "validUTF8 bs \<longleftrightarrow> (\<exists>cs. (\<forall>c \<in> set cs. encodedChar c) \<and> concat cs = bs)"
proof
  assume "validUTF8 bs"
  then show "\<exists>cs. (\<forall>c \<in> set cs. encodedChar c) \<and> concat cs = bs"
  proof (induction bs rule: validUTF8_induct)
    case Nil
    have "(\<forall>c \<in> set []. encodedChar c) \<and> concat [] = ([] :: byte list)" by simp
    then show ?case by blast
  next
    case (Char c r)
    then obtain cs where "\<forall>c \<in> set cs. encodedChar c" "concat cs = r" by blast
    with Char.hyps(1) have "(\<forall>d \<in> set (c # cs). encodedChar d) \<and> concat (c # cs) = c @ r"
      by simp
    then show ?case by blast
  qed
next
  assume "\<exists>cs. (\<forall>c \<in> set cs. encodedChar c) \<and> concat cs = bs"
  then obtain cs where "\<forall>c \<in> set cs. encodedChar c" "concat cs = bs" by blast
  then show "validUTF8 bs"
    by (induction cs arbitrary: bs) (auto simp: validUTF8_Nil validUTF8_char_append)
qed

lemma validUTF8_boundary:
  "validUTF8 bs \<Longrightarrow> k < length bs \<Longrightarrow> \<not> cont (bs ! k) \<Longrightarrow>
   validUTF8 (take k bs) \<and> validUTF8 (drop k bs)"
proof (induction bs arbitrary: k rule: validUTF8_induct)
  case Nil
  then show ?case by simp
next
  case (Char c r)
  show ?case
  proof (cases "k < length c")
    case True
    have "k = 0"
    proof (rule ccontr)
      assume "k \<noteq> 0"
      with True Char.hyps(1) have "cont (c ! k)" by (simp add: encodedChar_tail)
      with True Char.prems(2) show False by (simp add: nth_append)
    qed
    with Char.hyps show ?thesis
      by (simp add: validUTF8_Nil validUTF8_char_append)
  next
    case False
    with Char.prems have "k - length c < length r" "\<not> cont (r ! (k - length c))"
      by (auto simp: nth_append)
    from Char.IH [OF this] False Char.hyps(1) show ?thesis
      by (simp add: validUTF8_char_append)
  qed
qed

lemma validUTF8_single:
  assumes "encodedChar c" and "c = x @ y" and "validUTF8 x" and "x \<noteq> []"
  shows "y = []"
proof -
  from validUTF8_decomp [OF assms(3,4)] obtain d r where
    d: "x = d @ r" "encodedChar d" by blast
  from d(2) have "d \<noteq> []" by (rule encodedChar_nonempty)
  with d(1) assms(2) have "hd c = hd d" by simp
  with assms(1) d(2) have "length c = length d"
    using encodedChar_leadLen by metis
  with d(1) assms(2) show ?thesis by simp
qed

lemma first_ascii: "b < 0x80 \<Longrightarrow> first b = 0xF0"
  by (simp add: first_def)

lemma first_2: "0xC2 \<le> b \<Longrightarrow> b \<le> 0xDF \<Longrightarrow> first b = 0x02"
  by (auto simp: first_def byte_nat)

lemma first_3: "0xE1 \<le> b \<Longrightarrow> b \<le> 0xEC \<or> 0xEE \<le> b \<and> b \<le> 0xEF \<Longrightarrow> first b = 0x03"
  by (auto simp: first_def byte_nat)

lemma first_4: "0xF1 \<le> b \<Longrightarrow> b \<le> 0xF3 \<Longrightarrow> first b = 0x04"
  by (auto simp: first_def byte_nat)

lemma first_consts:
  "first 0xE0 = 0x13" "first 0xED = 0x23" "first 0xF0 = 0x34" "first 0xF4 = 0x44"
  by (simp_all add: first_def)


lemma list4_cases [case_names 0 1 2 3]:
  obtains "r = []" | b1 where "r = [b1]" | b1 b2 where "r = [b1, b2]"
    | b1 b2 b3 r' where "r = b1 # b2 # b3 # r'"
  by (metis list.exhaust)

lemma DR_E0: "DecodeRune_size (0xE0 # r) = (if encodedChar (take 3 (0xE0 # r)) then 3 else 1)"
  by (cases r rule: list4_cases)
    (simp_all add: DecodeRune_size_def Let_def first_consts acceptRanges_def cont_def word_le_nat_alt word_less_nat_alt)

lemma DR_ED: "DecodeRune_size (0xED # r) = (if encodedChar (take 3 (0xED # r)) then 3 else 1)"
  by (cases r rule: list4_cases)
    (simp_all add: DecodeRune_size_def Let_def first_consts acceptRanges_def cont_def word_le_nat_alt word_less_nat_alt)

lemma DR_F0: "DecodeRune_size (0xF0 # r) = (if encodedChar (take 4 (0xF0 # r)) then 4 else 1)"
  by (cases r rule: list4_cases)
    (simp_all add: DecodeRune_size_def Let_def first_consts acceptRanges_def cont_def word_le_nat_alt word_less_nat_alt)

lemma DR_F4: "DecodeRune_size (0xF4 # r) = (if encodedChar (take 4 (0xF4 # r)) then 4 else 1)"
  by (cases r rule: list4_cases)
    (simp_all add: DecodeRune_size_def Let_def first_consts acceptRanges_def cont_def word_le_nat_alt word_less_nat_alt)

lemma DR_1: "b0 < 0x80 \<Longrightarrow> DecodeRune_size (b0 # r) = 1"
  by (simp add: DecodeRune_size_def Let_def first_ascii)

lemma DR_0: "leadLen b0 = 0 \<Longrightarrow> DecodeRune_size (b0 # r) = 1"
proof -
  assume "leadLen b0 = 0"
  then have "first b0 = 0xF1"
    by (auto simp: leadLen_def first_def byte_nat split: if_splits)
  then show ?thesis by (simp add: DecodeRune_size_def Let_def)
qed

lemma DR_2:
  assumes "0xC2 \<le> b0" "b0 \<le> 0xDF"
  shows "DecodeRune_size (b0 # r) = (if encodedChar (take 2 (b0 # r)) then 2 else 1)"
proof -
  have f: "first b0 = 0x02" using assms by (rule first_2)
  have e1: "encodedChar [b0] = False" using assms by (auto simp: byte_nat)
  have e2: "\<And>b1. encodedChar [b0, b1] = cont b1" using assms by simp
  show ?thesis
    by (cases r rule: list4_cases)
      (simp_all add: DecodeRune_size_def Let_def f e1 e2 acceptRanges_def cont_def
        word_le_nat_alt word_less_nat_alt del: encodedChar.simps)
qed

lemma DR_3:
  assumes "0xE1 \<le> b0 \<and> b0 \<le> 0xEC \<or> 0xEE \<le> b0 \<and> b0 \<le> 0xEF"
  shows "DecodeRune_size (b0 # r) = (if encodedChar (take 3 (b0 # r)) then 3 else 1)"
proof -
  have f: "first b0 = 0x03" using assms by (auto simp: first_def byte_nat)
  have e1: "encodedChar [b0] = False" using assms by (auto simp: byte_nat)
  have e2: "\<And>b1. encodedChar [b0, b1] = False" using assms by (auto simp: byte_nat)
  have e3: "\<And>b1 b2. encodedChar [b0, b1, b2] = (cont b1 \<and> cont b2)"
    using assms by (auto simp: byte_nat)
  show ?thesis
    by (cases r rule: list4_cases)
      (simp_all add: DecodeRune_size_def Let_def f e1 e2 e3 acceptRanges_def cont_def
        word_le_nat_alt word_less_nat_alt del: encodedChar.simps)
qed

lemma DR_4:
  assumes "0xF1 \<le> b0" "b0 \<le> 0xF3"
  shows "DecodeRune_size (b0 # r) = (if encodedChar (take 4 (b0 # r)) then 4 else 1)"
proof -
  have f: "first b0 = 0x04" using assms by (rule first_4)
  have e1: "encodedChar [b0] = False" using assms by (auto simp: byte_nat)
  have e2: "\<And>b1. encodedChar [b0, b1] = False" using assms by (auto simp: byte_nat)
  have e3: "\<And>b1 b2. encodedChar [b0, b1, b2] = False" using assms by (auto simp: byte_nat)
  have e4: "\<And>b1 b2 b3. encodedChar [b0, b1, b2, b3] = (cont b1 \<and> cont b2 \<and> cont b3)"
    using assms by (auto simp: byte_nat)
  show ?thesis
    by (cases r rule: list4_cases)
      (simp_all add: DecodeRune_size_def Let_def f e1 e2 e3 e4 acceptRanges_def cont_def
        word_le_nat_alt word_less_nat_alt del: encodedChar.simps)
qed

lemma leadLen_rows:
  "leadLen b = 0 \<or> leadLen b = 1 \<and> b < 0x80 \<or> leadLen b = 2 \<and> 0xC2 \<le> b \<and> b \<le> 0xDF \<or>
   leadLen b = 3 \<and> (b = 0xE0 \<or> b = 0xED \<or> 0xE1 \<le> b \<and> b \<le> 0xEC \<or> 0xEE \<le> b \<and> b \<le> 0xEF) \<or>
   leadLen b = 4 \<and> (b = 0xF0 \<or> b = 0xF4 \<or> 0xF1 \<le> b \<and> b \<le> 0xF3)"
  by (simp add: leadLen_def byte_nat) arith


lemma DecodeRune_size_eq:
  assumes "p \<noteq> []"
  shows "DecodeRune_size p =
           (if encodedChar (take (leadLen (hd p)) p) then int (leadLen (hd p)) else 1)"
proof -
  from assms obtain b r where p: "p = b # r" by (cases p) auto
  from leadLen_rows [of b] show ?thesis
    unfolding p
    by (elim disjE conjE) (simp_all add: DR_0 DR_1 DR_2 DR_3 DR_4 DR_E0 DR_ED DR_F0 DR_F4)
qed

section \<open>The fragment of one pass: its bytes, its size, its boundaries\<close>

lemma DecodeRune_size_char:
  assumes "encodedChar c"
  shows "DecodeRune_size (c @ r) = len c"
proof -
  from assms have ne: "c \<noteq> []" by (rule encodedChar_nonempty)
  then have "hd (c @ r) = hd c" by simp
  with assms have "leadLen (hd (c @ r)) = length c" by (simp add: encodedChar_leadLen)
  with assms ne show ?thesis by (simp add: DecodeRune_size_eq)
qed

lemma DecodeRune_size_ge2:
  assumes "2 \<le> DecodeRune_size p"
  shows "\<exists>n. DecodeRune_size p = int n \<and> n \<le> length p \<and> encodedChar (take n p)"
proof -
  from assms have ne: "p \<noteq> []" by (auto simp: DecodeRune_size_def)
  let ?n = "leadLen (hd p)"
  from assms ne have enc: "encodedChar (take ?n p)" and sz: "DecodeRune_size p = int ?n"
    by (auto simp: DecodeRune_size_eq split: if_splits)
  from enc have "take ?n p \<noteq> []" by (rule encodedChar_nonempty)
  then have "hd (take ?n p) = hd p" by (cases p; cases ?n) auto
  with encodedChar_leadLen [OF enc] have "length (take ?n p) = ?n" by simp
  then have "?n \<le> length p" by simp
  with enc sz show ?thesis by blast
qed

lemma puncs_encoded: "\<forall>p \<in> set strongPuncs \<union> set clausePuncs. encodedChar p"
  by (simp add: strongPuncs_def clausePuncs_def cont_def)

lemma occursAt_split:
  assumes "occursAt s p j"
  shows "s = take j s @ p @ drop (j + length p) s"
proof -
  from assms have "take (length p) (drop j s) = p" by (simp add: occursAt_def)
  then have "drop j s = p @ drop (length p) (drop j s)"
    by (metis append_take_drop_id)
  then have "drop j s = p @ drop (j + length p) s" by (simp add: add.commute)
  then show ?thesis by (metis append_take_drop_id)
qed

lemma validUTF8_after_mark:
  assumes v: "validUTF8 s" and p: "encodedChar p" and occ: "occursAt s p j"
  shows "validUTF8 (take (j + length p) s) \<and> validUTF8 (drop (j + length p) s)"
proof -
  from p have pne: "p \<noteq> []" by (rule encodedChar_nonempty)
  from occ have bound: "j + length p \<le> length s" and tk: "take (length p) (drop j s) = p"
    by (simp_all add: occursAt_def)
  from bound pne have j: "j < length s" by (cases p) auto
  have "s ! j = hd p"
  proof -
    from tk pne have "hd (drop j s) = hd p" by (metis hd_take length_greater_0_conv)
    with j show ?thesis by (simp add: hd_drop_conv_nth)
  qed
  with p have "\<not> cont (s ! j)" by (simp add: encodedChar_hd)
  from validUTF8_boundary [OF v j this] have a: "validUTF8 (take j s)" and b: "validUTF8 (drop j s)"
    by simp_all
  have d: "drop j s = p @ drop (j + length p) s"
    using tk by (metis append_take_drop_id drop_drop add.commute)
  with b p have "validUTF8 (drop (j + length p) s)" by (simp add: validUTF8_char_append)
  moreover have "take (j + length p) s = take j s @ p"
    using tk by (simp add: take_add)
  with a p have "validUTF8 (take (j + length p) s)"
    by (simp add: validUTF8_append validUTF8_char)
  ultimately show ?thesis by simp
qed

lemma occursAt_window:
  assumes "occursAt (window s) p j"
  shows "occursAt s p (length s - length (window s) + j)"
proof -
  have l: "length s - length (window s) = length s - 100"
    by (simp add: window_def)
  from assms show ?thesis
    unfolding l by (auto simp: occursAt_def window_def add.commute)
qed

lemma fold_puncStep_result:
  "\<forall>q \<in> set ps. q \<noteq> [] \<Longrightarrow>
   fold (puncStep s (len (window s)) (window s)) ps best = best \<or>
   (\<exists>p \<in> set ps. LastIndex (window s) p \<noteq> - 1 \<and>
      fold (puncStep s (len (window s)) (window s)) ps best = markEnd s p)"
proof (induction ps arbitrary: best)
  case Nil
  then show ?case by simp
next
  case (Cons q ps)
  then have q: "q \<noteq> []" and ps: "\<forall>q \<in> set ps. q \<noteq> []" by simp_all
  let ?b = "puncStep s (len (window s)) (window s) q best"
  from Cons.IH [OF ps, of ?b] show ?case
    by (auto simp: puncStep_window [OF q] split: if_splits)
qed

lemma findSplitPoint_result:
  "\<exists>sp. findSplitPoint s = Inr sp \<and>
     (sp = len s \<or>
      (\<exists>p \<in> set strongPuncs \<union> set clausePuncs. \<exists>j. occursAt s p j \<and> sp = int j + len p))"
proof -
  let ?step = "puncStep s (len (window s)) (window s)"
  have mark: "\<exists>j. occursAt s p j \<and> markEnd s p = int j + len p"
    if "p \<in> set strongPuncs \<union> set clausePuncs" "LastIndex (window s) p \<noteq> - 1" for p
  proof -
    from that puncs_nonempty have "p \<noteq> []" by blast
    from LastIndex_present [OF this that(2)] obtain j where
      j: "LastIndex (window s) p = int j" "occursAt (window s) p j" by blast
    have "length (window s) \<le> length s" by (simp add: window_def)
    then have "markEnd s p = int (length s - length (window s) + j) + len p"
      by (simp add: markEnd_def j(1))
    with occursAt_window [OF j(2)] show ?thesis by blast
  qed
  have sne: "\<forall>q \<in> set strongPuncs. q \<noteq> []" and cne: "\<forall>q \<in> set clausePuncs. q \<noteq> []"
    using puncs_nonempty by simp_all
  define S where "S = fold ?step strongPuncs (- 1)"
  define C where "C = fold ?step clausePuncs (- 1)"
  have S: "S = - 1 \<or> (\<exists>p \<in> set strongPuncs. LastIndex (window s) p \<noteq> - 1 \<and> S = markEnd s p)"
    unfolding S_def by (rule fold_puncStep_result [OF sne])
  have C: "C = - 1 \<or> (\<exists>p \<in> set clausePuncs. LastIndex (window s) p \<noteq> - 1 \<and> C = markEnd s p)"
    unfolding C_def by (rule fold_puncStep_result [OF cne])
  have res: "findSplitPoint s = Inr (if S \<noteq> - 1 then S else if C \<noteq> - 1 then C else len s)"
    by (simp add: findSplitPoint_window Let_def S_def C_def)
  show ?thesis
  proof (cases "S \<noteq> - 1")
    case True
    with S obtain p where "p \<in> set strongPuncs" "LastIndex (window s) p \<noteq> - 1" "S = markEnd s p"
      by blast
    with mark [of p] True res show ?thesis by auto
  next
    case False
    show ?thesis
    proof (cases "C \<noteq> - 1")
      case True
      with C obtain p where "p \<in> set clausePuncs" "LastIndex (window s) p \<noteq> - 1"
        "C = markEnd s p" by blast
      with mark [of p] True False res show ?thesis by auto
    next
      case c: False
      with False res show ?thesis by simp
    qed
  qed
qed

lemma hardEnd_cases:
  assumes "0 \<le> startIndex" "startIndex < len bs" "endIndex < len bs"
    and "hardEnd bs startIndex endIndex = Inr e"
  shows "(startIndex < e \<and> e \<le> endIndex \<and> RuneStart (bs ! nat e)) \<or>
         e = min (len bs) (startIndex + max (DecodeRune_size (drop (nat startIndex) bs)) 1)"
proof -
  from scanBack_ok [OF assms(1,3)] obtain e1 where
    e1: "scanBack bs startIndex endIndex = Inr e1" "e1 \<le> max startIndex endIndex"
      "startIndex < e1 \<longrightarrow> RuneStart (bs ! nat e1)" by blast
  show ?thesis
  proof (cases "e1 \<le> startIndex")
    case True
    from assms(1,2) have "sliceFrom bs startIndex = Inr (drop (nat startIndex) bs)"
      by (simp add: sliceFrom_def slice_def)
    with True e1(1) assms(4) show ?thesis
      by (auto simp: hardEnd_def forcedEnd_def Let_def min_def)
  next
    case False
    with e1 assms(4) show ?thesis by (auto simp: hardEnd_def)
  qed
qed

lemma refineEnd_cases:
  assumes "0 \<le> startIndex" "startIndex < e" "e \<le> len bs"
    and "refineEnd bs startIndex e = Inr e'"
  shows "e' = e \<or>
         (\<exists>p \<in> set strongPuncs \<union> set clausePuncs. \<exists>j.
            occursAt (take (nat (e - startIndex)) (drop (nat startIndex) bs)) p j \<and>
            e' = startIndex + (int j + len p) \<and> e' < e)"
proof -
  define pc where "pc = take (nat (e - startIndex)) (drop (nat startIndex) bs)"
  have l: "len pc = e - startIndex" using assms by (simp add: pc_def)
  have sl: "slice bs startIndex e = Inr pc" using assms by (simp add: slice_Inr pc_def)
  from findSplitPoint_result [of pc] obtain sp where
    sp: "findSplitPoint pc = Inr sp"
      "sp = len pc \<or>
       (\<exists>p \<in> set strongPuncs \<union> set clausePuncs. \<exists>j. occursAt pc p j \<and> sp = int j + len p)"
    by blast
  from assms(4) have
    "e' = (if 0 < sp \<and> sp < len pc
           then (if sp > len pc div 2 \<or> len pc < 100 then startIndex + sp else e)
           else e)"
    by (auto simp: refineEnd_def sl sp(1))
  then consider "e' = e" | "e' = startIndex + sp" "sp < e - startIndex"
    using l by (auto split: if_splits)
  then show ?thesis
  proof cases
    case 1
    then show ?thesis by simp
  next
    case 2
    with l have "sp \<noteq> len pc" by simp
    with sp(2) obtain p j where "p \<in> set strongPuncs \<union> set clausePuncs" "occursAt pc p j"
      "sp = int j + len p" by blast
    with 2 show ?thesis unfolding pc_def by auto
  qed
qed

lemma chunkEnd_cases:
  assumes "0 \<le> startIndex" "startIndex < len bs"
    and "chunkEnd bs maxSize startIndex = Inr e"
  shows "(len bs \<le> int64 (startIndex + maxSize) \<and> e = len bs) \<or>
         (int64 (startIndex + maxSize) < len bs \<and>
          (\<exists>e1. hardEnd bs startIndex (int64 (startIndex + maxSize)) = Inr e1 \<and>
                startIndex < e1 \<and> e1 \<le> len bs \<and> refineEnd bs startIndex e1 = Inr e))"
proof (cases "len bs \<le> int64 (startIndex + maxSize)")
  case True
  with assms(3) show ?thesis by (simp add: chunkEnd_def)
next
  case False
  then have lt: "int64 (startIndex + maxSize) < len bs" by simp
  from hardEnd_ok [OF assms(1,2) lt] obtain e1 where
    "hardEnd bs startIndex (int64 (startIndex + maxSize)) = Inr e1" "startIndex < e1" "e1 \<le> len bs"
    by blast
  with assms(3) lt show ?thesis by (simp add: chunkEnd_def)
qed

lemma chunkEnd_valid:
  assumes s0: "0 \<le> startIndex" and s1: "startIndex < len bs"
    and v: "validUTF8 (drop (nat startIndex) bs)"
    and ce: "chunkEnd bs maxSize startIndex = Inr e"
  shows "validUTF8 (take (nat (e - startIndex)) (drop (nat startIndex) bs)) \<and>
         validUTF8 (drop (nat e) bs)"
proof -
  define rest where "rest = drop (nat startIndex) bs"
  have rl: "len rest = len bs - startIndex" using s0 s1 by (simp add: rest_def)
  have rne: "rest \<noteq> []" using s0 s1 by (simp add: rest_def)
  have dr: "drop (nat x) bs = drop (nat (x - startIndex)) rest" if "startIndex \<le> x" for x
  proof -
    from that s0 have "nat x = nat (x - startIndex) + nat startIndex" by simp
    then show ?thesis by (simp add: rest_def)
  qed
  have goal: "validUTF8 (take k rest) \<and> validUTF8 (drop k rest) \<Longrightarrow> e = startIndex + int k \<Longrightarrow>
      ?thesis" for k
    using dr [of e] by (simp add: rest_def)
  from chunkEnd_cases [OF s0 s1 ce] consider
    (final) "e = len bs"
    | (inner) e1 where "int64 (startIndex + maxSize) < len bs"
        "hardEnd bs startIndex (int64 (startIndex + maxSize)) = Inr e1"
        "startIndex < e1" "e1 \<le> len bs" "refineEnd bs startIndex e1 = Inr e"
    by blast
  then show ?thesis
  proof cases
    case final
    have "validUTF8 (take (length rest) rest) \<and> validUTF8 (drop (length rest) rest)"
      using v by (simp add: rest_def validUTF8_Nil)
    moreover have "e = startIndex + int (length rest)" using final rl by simp
    ultimately show ?thesis by (rule goal)
  next
    case inner
    define k1 where "k1 = nat (e1 - startIndex)"
    have k1: "e1 = startIndex + int k1" "0 < k1" "k1 \<le> length rest"
      using inner(3,4) rl by (simp_all add: k1_def)
    have b1: "validUTF8 (take k1 rest) \<and> validUTF8 (drop k1 rest)"
    proof -
      from hardEnd_cases [OF s0 s1 inner(1,2)] consider
        (scan) "e1 \<le> int64 (startIndex + maxSize)" "RuneStart (bs ! nat e1)"
        | (forced) "e1 = min (len bs) (startIndex + max (DecodeRune_size rest) 1)"
        by (auto simp: rest_def)
      then show ?thesis
      proof cases
        case scan
        with inner(1) have lt: "e1 < len bs" by simp
        with k1(1) rl have klt: "k1 < length rest" by simp
        have "rest ! k1 = bs ! nat e1"
        proof -
          have "nat e1 = nat startIndex + k1" using k1(1) s0 by simp
          then show ?thesis using lt s0 by (simp add: rest_def)
        qed
        with scan(2) have "\<not> cont (rest ! k1)" by (simp add: RuneStart_cont)
        from validUTF8_boundary [OF _ klt this] v show ?thesis by (simp add: rest_def)
      next
        case forced
        from validUTF8_decomp [OF _ rne] v obtain c r where
          cr: "rest = c @ r" "encodedChar c" "validUTF8 r" by (auto simp: rest_def)
        from cr(2) have "c \<noteq> []" by (rule encodedChar_nonempty)
        from cr(1,2) have "DecodeRune_size rest = len c" by (simp add: DecodeRune_size_char)
        with forced \<open>c \<noteq> []\<close> cr(1) rl have "e1 = startIndex + len c"
          by (cases c) (auto simp: min_def)
        with k1(1) have "k1 = length c" by simp
        with cr show ?thesis by (simp add: validUTF8_char)
      qed
    qed
    from refineEnd_cases [OF s0 inner(3,4,5)] consider
      (keep) "e = e1"
      | (mark) p j where "p \<in> set strongPuncs \<union> set clausePuncs"
          "occursAt (take k1 rest) p j" "e = startIndex + (int j + len p)" "e < e1"
      by (auto simp: rest_def k1_def)
    then show ?thesis
    proof cases
      case keep
      with b1 k1(1) goal show ?thesis by blast
    next
      case mark
      define k where "k = j + length p"
      from mark(1) puncs_encoded have "encodedChar p" by blast
      from validUTF8_after_mark [OF _ this mark(2)] b1
      have a: "validUTF8 (take k (take k1 rest))" and b: "validUTF8 (drop k (take k1 rest))"
        by (simp_all add: k_def)
      from mark(3,4) k1(1) have kk: "k \<le> k1" by (simp add: k_def)
      then have "take k (take k1 rest) = take k rest" by (simp add: min_def)
      with a have "validUTF8 (take k rest)" by simp
      moreover have "drop k rest = drop k (take k1 rest) @ drop k1 rest"
      proof -
        have "rest = take k1 rest @ drop k1 rest" by simp
        then have "drop k rest = drop k (take k1 rest @ drop k1 rest)" by simp
        moreover have "drop k (take k1 rest @ drop k1 rest)
            = drop k (take k1 rest) @ drop (k - length (take k1 rest)) (drop k1 rest)"
          by (rule drop_append)
        moreover have "k - length (take k1 rest) = 0" using kk k1(3) by simp
        ultimately show ?thesis by (simp only: drop_0)
      qed
      with b b1 have "validUTF8 (drop k rest)" by (simp add: validUTF8_append)
      moreover have "e = startIndex + int k" using mark(3) by (simp add: k_def)
      ultimately show ?thesis using goal by blast
    qed
  qed
qed

lemma mark_inside_char:
  assumes c: "encodedChar c" and p: "encodedChar p" and occ: "occursAt c p j"
  shows "length c \<le> j + length p"
proof -
  let ?k = "j + length p"
  from p have "p \<noteq> []" by (rule encodedChar_nonempty)
  then have kpos: "0 < ?k" by simp
  from c have cne: "c \<noteq> []" by (rule encodedChar_nonempty)
  from validUTF8_after_mark [OF validUTF8_char [OF c] p occ]
  have v: "validUTF8 (take ?k c)" by simp
  from kpos cne have "take ?k c \<noteq> []" by simp
  from validUTF8_single [OF c _ v this, of "drop ?k c"] have "drop ?k c = []" by simp
  then show ?thesis by simp
qed

lemma chunkEnd_size:
  assumes s0: "0 \<le> startIndex" and s1: "startIndex < len bs" and m: "1 \<le> maxSize"
    and ce: "chunkEnd bs maxSize startIndex = Inr e"
  shows "len (take (nat (e - startIndex)) (drop (nat startIndex) bs)) \<le> maxSize \<or>
         (encodedChar (take (nat (e - startIndex)) (drop (nat startIndex) bs)) \<and>
          maxSize < len (take (nat (e - startIndex)) (drop (nat startIndex) bs)))"
proof -
  define rest where "rest = drop (nat startIndex) bs"
  have rl: "len rest = len bs - startIndex" using s0 s1 by (simp add: rest_def)
  from chunkEnd_ok [OF s0 s1, of maxSize] ce have e: "startIndex < e" "e \<le> len bs" by simp_all
  define F where "F = take (nat (e - startIndex)) rest"
  have lF: "len F = e - startIndex" using e rl by (simp add: F_def)
  have budget: "int64 (startIndex + maxSize) \<le> startIndex + maxSize"
    using s0 m by (intro int64_le) simp
  have small: "len F \<le> maxSize \<or> (encodedChar F \<and> maxSize < len F)" if "e \<le> startIndex + maxSize"
    using that lF by simp
  have "len F \<le> maxSize \<or> (encodedChar F \<and> maxSize < len F)"
  proof -
    from chunkEnd_cases [OF s0 s1 ce] consider
      (final) "len bs \<le> int64 (startIndex + maxSize)" "e = len bs"
      | (inner) e1 where "int64 (startIndex + maxSize) < len bs"
          "hardEnd bs startIndex (int64 (startIndex + maxSize)) = Inr e1"
          "startIndex < e1" "e1 \<le> len bs" "refineEnd bs startIndex e1 = Inr e"
      by blast
    then show ?thesis
    proof cases
      case final
      with budget show ?thesis by (intro small) simp
    next
      case inner
      from refineEnd_cases [OF s0 inner(3,4,5)] have le: "e \<le> e1" by auto
      from hardEnd_cases [OF s0 s1 inner(1,2)] consider
        (scan) "e1 \<le> int64 (startIndex + maxSize)"
        | (forced) "e1 = min (len bs) (startIndex + max (DecodeRune_size rest) 1)"
        by (auto simp: rest_def)
      then show ?thesis
      proof cases
        case scan
        with le budget show ?thesis by (intro small) simp
      next
        case forced
        show ?thesis
        proof (cases "DecodeRune_size rest \<le> maxSize")
          case True
          with forced m le show ?thesis by (intro small) (simp add: min_def max_def split: if_splits)
        next
          case False
          with m have "2 \<le> DecodeRune_size rest" by simp
          from DecodeRune_size_ge2 [OF this] obtain n where
            n: "DecodeRune_size rest = int n" "n \<le> length rest" "encodedChar (take n rest)"
            by blast
          from n(1) False m have big: "maxSize < int n" by simp
          from forced n(1,2) rl big m have e1: "e1 = startIndex + int n"
            by (simp add: min_def max_def)
          have "nat (e1 - startIndex) = n" using e1 by simp
          with refineEnd_cases [OF s0 inner(3,4,5)]
          have "e = e1 \<or>
            (\<exists>p \<in> set strongPuncs \<union> set clausePuncs. \<exists>j.
               occursAt (take n rest) p j \<and> e = startIndex + (int j + len p) \<and> e < e1)"
            by (simp only: rest_def)
          then consider
            (keep) "e = e1"
            | (mark) p j where "p \<in> set strongPuncs \<union> set clausePuncs"
                "occursAt (take n rest) p j" "e = startIndex + (int j + len p)" "e < e1"
            by blast
          then show ?thesis
          proof cases
            case keep
            with e1 have "F = take n rest" by (simp add: F_def)
            with n(2,3) big show ?thesis by simp
          next
            case mark
            from mark(1) puncs_encoded have "encodedChar p" by blast
            from mark_inside_char [OF n(3) this mark(2)] n(2)
            have "n \<le> j + length p" by simp
            with mark(3,4) e1 show ?thesis by simp
          qed
        qed
      qed
    qed
  qed
  then show ?thesis by (simp only: F_def rest_def)
qed

section \<open>Claims about the whole run\<close>

text \<open>
  C1 (round trip). For every text and every \<open>maxSize\<close> (in particular every
  \<open>maxSize \<ge> 1\<close>), \<open>splitText\<close> returns a list of fragments whose concatenation, in
  order, is the text itself: no byte is dropped, duplicated or moved.
\<close>

theorem splitText_roundtrip:
  "\<exists>chunks. splitText text maxSize = Inr chunks \<and> concat chunks = text"
proof -
  have "\<exists>chunks. splitText text maxSize = Inr chunks \<and> concat chunks = text \<and>
          (\<forall>c \<in> set chunks. c \<noteq> [] \<and> True)"
    by (rule splitText_pieces [where Q = "\<lambda>_. True"]) simp_all
  then show ?thesis by blast
qed

text \<open>The text \<open>ab.cdef\<close> with a budget of 4 bytes: the fragments are \<open>ab.\<close> and \<open>cdef\<close>.\<close>

theorem splitText_roundtrip_witness:
  "splitText [0x61, 0x62, 0x2E, 0x63, 0x64, 0x65, 0x66] 4
     = Inr [[0x61, 0x62, 0x2E], [0x63, 0x64, 0x65, 0x66]] \<and>
   concat [[0x61, 0x62, 0x2E], [0x63, 0x64, 0x65, 0x66 :: byte]]
     = [0x61, 0x62, 0x2E, 0x63, 0x64, 0x65, 0x66]"
proof -
  have "splitText [0x61, 0x62, 0x2E, 0x63, 0x64, 0x65, 0x66] 4
     = Inr [[0x61, 0x62, 0x2E], [0x63, 0x64, 0x65, 0x66]]"
    by code_simp
  with splitText_roundtrip [of "[0x61, 0x62, 0x2E, 0x63, 0x64, 0x65, 0x66]" 4]
  show ?thesis by simp
qed

text \<open>
  C7 (totality and termination). \<open>splitLoop\<close> is a total function (its termination is
  proved above), and for every text, the empty one included, and every \<open>maxSize\<close>,
  \<open>splitText\<close> returns a list of fragments and raises no panic. Every pass through
  the loop body, from an offset inside the text, returns an end offset strictly
  greater than the start offset and not beyond the end of the text.
\<close>

theorem splitText_total:
  "(\<exists>chunks. splitText text maxSize = Inr chunks) \<and>
   (\<forall>startIndex. 0 \<le> startIndex \<and> startIndex < len text \<longrightarrow>
      (\<exists>endIndex. chunkEnd text maxSize startIndex = Inr endIndex \<and>
         startIndex < endIndex \<and> endIndex \<le> len text))"
proof
  have "\<exists>chunks. splitText text maxSize = Inr chunks \<and> concat chunks = text \<and>
          (\<forall>c \<in> set chunks. c \<noteq> [] \<and> True)"
    by (rule splitText_pieces [where Q = "\<lambda>_. True"]) simp_all
  then show "\<exists>chunks. splitText text maxSize = Inr chunks" by blast
next
  show "\<forall>startIndex. 0 \<le> startIndex \<and> startIndex < len text \<longrightarrow>
      (\<exists>endIndex. chunkEnd text maxSize startIndex = Inr endIndex \<and>
         startIndex < endIndex \<and> endIndex \<le> len text)"
    using chunkEnd_ok by blast
qed

text \<open>The text \<open>ab.cdef\<close>, budget 4, and the pass that starts at offset 3.\<close>

theorem splitText_total_witness:
  "(\<exists>chunks. splitText [0x61, 0x62, 0x2E, 0x63, 0x64, 0x65, 0x66] 4 = Inr chunks) \<and>
   (0 \<le> (3 :: int) \<and> 3 < len [0x61, 0x62, 0x2E, 0x63, 0x64, 0x65, 0x66 :: byte]) \<and>
   (\<exists>endIndex. chunkEnd [0x61, 0x62, 0x2E, 0x63, 0x64, 0x65, 0x66] 4 3 = Inr endIndex \<and>
      3 < endIndex \<and> endIndex \<le> len [0x61, 0x62, 0x2E, 0x63, 0x64, 0x65, 0x66 :: byte])"
proof -
  have h: "0 \<le> (3 :: int) \<and> 3 < len [0x61, 0x62, 0x2E, 0x63, 0x64, 0x65, 0x66 :: byte]"
    by simp
  from splitText_total [of "[0x61, 0x62, 0x2E, 0x63, 0x64, 0x65, 0x66]" 4]
  have a: "\<exists>chunks. splitText [0x61, 0x62, 0x2E, 0x63, 0x64, 0x65, 0x66] 4 = Inr chunks"
    and b: "\<forall>startIndex. 0 \<le> startIndex \<and>
        startIndex < len [0x61, 0x62, 0x2E, 0x63, 0x64, 0x65, 0x66 :: byte] \<longrightarrow>
      (\<exists>endIndex. chunkEnd [0x61, 0x62, 0x2E, 0x63, 0x64, 0x65, 0x66] 4 startIndex = Inr endIndex \<and>
         startIndex < endIndex \<and> endIndex \<le> len [0x61, 0x62, 0x2E, 0x63, 0x64, 0x65, 0x66 :: byte])"
    by blast+
  from b h have
    "\<exists>endIndex. chunkEnd [0x61, 0x62, 0x2E, 0x63, 0x64, 0x65, 0x66] 4 3 = Inr endIndex \<and>
      3 < endIndex \<and> endIndex \<le> len [0x61, 0x62, 0x2E, 0x63, 0x64, 0x65, 0x66 :: byte]"
    by blast
  with a h show ?thesis by blast
qed

text \<open>
  C9 (no empty fragment). For every text and every \<open>maxSize\<close>, every fragment that
  \<open>splitText\<close> returns has at least one byte; for a text that is not empty there is
  at least one fragment. This covers the fragments of the forced branch and those
  shortened at a mark.
\<close>

theorem splitText_fragments_nonempty:
  "\<exists>chunks. splitText text maxSize = Inr chunks \<and>
     (\<forall>c \<in> set chunks. 1 \<le> len c) \<and> (text \<noteq> [] \<longrightarrow> chunks \<noteq> [])"
proof -
  have "\<exists>chunks. splitText text maxSize = Inr chunks \<and> concat chunks = text \<and>
          (\<forall>c \<in> set chunks. c \<noteq> [] \<and> True)"
    by (rule splitText_pieces [where Q = "\<lambda>_. True"]) simp_all
  then obtain chunks where c: "splitText text maxSize = Inr chunks" "concat chunks = text"
    "\<forall>c \<in> set chunks. c \<noteq> []" by blast
  from c(3) have "\<forall>c \<in> set chunks. 1 \<le> len c"
    by (simp add: Suc_le_eq)
  moreover from c(2) have "text \<noteq> [] \<longrightarrow> chunks \<noteq> []" by auto
  ultimately show ?thesis using c(1) by blast
qed

text \<open>
  A four-byte character followed by \<open>a\<close>, with a budget of one byte: the character is
  a fragment of its own (the forced branch), and so is \<open>a\<close>.
\<close>

theorem splitText_fragments_nonempty_witness:
  "splitText [0xF0, 0x9F, 0x98, 0x80, 0x61] 1 = Inr [[0xF0, 0x9F, 0x98, 0x80], [0x61]] \<and>
   1 \<le> len [0xF0, 0x9F, 0x98, 0x80 :: byte] \<and> 1 \<le> len [0x61 :: byte] \<and>
   [0xF0, 0x9F, 0x98, 0x80, 0x61 :: byte] \<noteq> [] \<and>
   [[0xF0, 0x9F, 0x98, 0x80], [0x61 :: byte]] \<noteq> []"
proof -
  have "splitText [0xF0, 0x9F, 0x98, 0x80, 0x61] 1 = Inr [[0xF0, 0x9F, 0x98, 0x80], [0x61]]"
    by code_simp
  with splitText_fragments_nonempty [of "[0xF0, 0x9F, 0x98, 0x80, 0x61]" 1]
  show ?thesis by simp
qed

text \<open>
  C2 (size bound). For every text and every \<open>maxSize \<ge> 1\<close>, every fragment that
  \<open>splitText\<close> returns has at most \<open>maxSize\<close> bytes, or it is exactly one encoded
  character whose byte length exceeds \<open>maxSize\<close>.
\<close>

theorem splitText_size_bound:
  assumes "1 \<le> maxSize"
  shows "\<exists>chunks. splitText text maxSize = Inr chunks \<and>
           (\<forall>F \<in> set chunks. len F \<le> maxSize \<or> (encodedChar F \<and> maxSize < len F))"
proof -
  have "\<exists>chunks. splitText text maxSize = Inr chunks \<and> concat chunks = text \<and>
          (\<forall>c \<in> set chunks. c \<noteq> [] \<and>
             (len c \<le> maxSize \<or> (encodedChar c \<and> maxSize < len c)))"
    by (rule splitText_pieces [where Q = "\<lambda>_. True"]) (use assms chunkEnd_size in simp_all)
  then show ?thesis by blast
qed

text \<open>
  A four-byte character followed by \<open>abc\<close>, with a budget of two bytes: the character
  is one fragment of four bytes, then come \<open>ab\<close> and \<open>c\<close>.
\<close>

theorem splitText_size_bound_witness:
  "1 \<le> (2 :: int) \<and>
   splitText [0xF0, 0x9F, 0x98, 0x80, 0x61, 0x62, 0x63] 2
     = Inr [[0xF0, 0x9F, 0x98, 0x80], [0x61, 0x62], [0x63]] \<and>
   encodedChar [0xF0, 0x9F, 0x98, 0x80] \<and> 2 < len [0xF0, 0x9F, 0x98, 0x80 :: byte] \<and>
   len [0x61, 0x62 :: byte] \<le> 2 \<and> len [0x63 :: byte] \<le> 2"
proof -
  have h: "1 \<le> (2 :: int)" by simp
  have e: "splitText [0xF0, 0x9F, 0x98, 0x80, 0x61, 0x62, 0x63] 2
     = Inr [[0xF0, 0x9F, 0x98, 0x80], [0x61, 0x62], [0x63]]"
    by code_simp
  from splitText_size_bound [OF h, of "[0xF0, 0x9F, 0x98, 0x80, 0x61, 0x62, 0x63]"] e
  show ?thesis by simp
qed

text \<open>
  C3 (boundary safety). For every text that is well-formed UTF-8 and every
  \<open>maxSize\<close>, the fragments that \<open>splitText\<close> returns make up the text and each of
  them is well-formed UTF-8: no boundary, whether it comes from the byte budget, from
  the forced branch or from the search for a mark, lies inside an encoded character.
\<close>

theorem splitText_fragments_valid:
  assumes "validUTF8 text"
  shows "\<exists>chunks. splitText text maxSize = Inr chunks \<and> concat chunks = text \<and>
           (\<forall>F \<in> set chunks. validUTF8 F)"
proof -
  have "\<exists>chunks. splitText text maxSize = Inr chunks \<and> concat chunks = text \<and>
          (\<forall>c \<in> set chunks. c \<noteq> [] \<and> validUTF8 c)"
    by (rule splitText_pieces [where Q = "\<lambda>s. validUTF8 (drop (nat s) text)"])
      (use assms chunkEnd_valid in simp_all)
  then show ?thesis by blast
qed

text \<open>
  The ideographic full stop followed by two characters of three bytes (U+3042,
  U+3044), with a budget of 7 bytes: the budget ends inside the third character, the
  end moves back to offset 6, and the search moves it to offset 3, after the mark.
\<close>

theorem splitText_fragments_valid_witness:
  "validUTF8 [0xE3, 0x80, 0x82, 0xE3, 0x81, 0x82, 0xE3, 0x81, 0x84] \<and>
   splitText [0xE3, 0x80, 0x82, 0xE3, 0x81, 0x82, 0xE3, 0x81, 0x84] 7
     = Inr [[0xE3, 0x80, 0x82], [0xE3, 0x81, 0x82, 0xE3, 0x81, 0x84]] \<and>
   validUTF8 [0xE3, 0x80, 0x82] \<and> validUTF8 [0xE3, 0x81, 0x82, 0xE3, 0x81, 0x84]"
proof -
  have h: "validUTF8 [0xE3, 0x80, 0x82, 0xE3, 0x81, 0x82, 0xE3, 0x81, 0x84]"
    by code_simp
  have e: "splitText [0xE3, 0x80, 0x82, 0xE3, 0x81, 0x82, 0xE3, 0x81, 0x84] 7
     = Inr [[0xE3, 0x80, 0x82], [0xE3, 0x81, 0x82, 0xE3, 0x81, 0x84]]"
    by code_simp
  from splitText_fragments_valid [OF h, of 7] e h
  show ?thesis by simp
qed

section \<open>Claims about one pass through the loop body\<close>

text \<open>
  C10 (the final fragment is not refined). Whenever the rest of the text fits the
  budget, that is \<open>startIndex + maxSize \<ge> len(text)\<close> for a sum that a Go \<open>int\<close>
  holds, the pass returns the end of the text as the end offset: the fragment
  emitted is the whole rest of the text and it is the last one, whatever marks it
  contains, since \<open>findSplitPoint\<close> is only called in the other branch.
\<close>

theorem final_fragment_not_refined:
  assumes "0 \<le> startIndex" and "startIndex < len text"
    and "len text \<le> startIndex + maxSize" and "startIndex + maxSize < 2 ^ 63"
  shows "chunkEnd text maxSize startIndex = Inr (len text) \<and>
         splitLoop text maxSize startIndex chunks = Inr (chunks @ [drop (nat startIndex) text])"
proof -
  from assms have "int64 (startIndex + maxSize) = startIndex + maxSize"
    by (intro int64_id) simp_all
  with assms have ce: "chunkEnd text maxSize startIndex = Inr (len text)"
    by (simp add: chunkEnd_def)
  from assms have sl: "slice text startIndex (len text) = Inr (drop (nat startIndex) text)"
    by (simp add: slice_Inr)
  have "splitLoop text maxSize startIndex chunks
          = splitLoop text maxSize (len text) (chunks @ [drop (nat startIndex) text])"
    using assms(2) ce sl by (subst splitLoop.simps) simp
  also have "\<dots> = Inr (chunks @ [drop (nat startIndex) text])"
    by (subst splitLoop.simps) simp
  finally show ?thesis using ce by simp
qed

text \<open>
  The text \<open>abcde.fg\<close> with budget 4, at offset 4: the last fragment is \<open>e.fg\<close>,
  although the search on it would have moved the end to offset 6, after the \<open>.\<close>.
\<close>

theorem final_fragment_not_refined_witness:
  "0 \<le> (4 :: int) \<and> 4 < len [0x61, 0x62, 0x63, 0x64, 0x65, 0x2E, 0x66, 0x67 :: byte] \<and>
   len [0x61, 0x62, 0x63, 0x64, 0x65, 0x2E, 0x66, 0x67 :: byte] \<le> 4 + 4 \<and>
   (4 + 4 :: int) < 2 ^ 63 \<and>
   chunkEnd [0x61, 0x62, 0x63, 0x64, 0x65, 0x2E, 0x66, 0x67] 4 4 = Inr 8 \<and>
   splitLoop [0x61, 0x62, 0x63, 0x64, 0x65, 0x2E, 0x66, 0x67] 4 4 [[0x61, 0x62, 0x63, 0x64]]
     = Inr [[0x61, 0x62, 0x63, 0x64], [0x65, 0x2E, 0x66, 0x67]] \<and>
   refineEnd [0x61, 0x62, 0x63, 0x64, 0x65, 0x2E, 0x66, 0x67] 4 8 = Inr 6"
proof -
  have r: "refineEnd [0x61, 0x62, 0x63, 0x64, 0x65, 0x2E, 0x66, 0x67] 4 8 = Inr 6"
    by code_simp
  from final_fragment_not_refined [of 4 "[0x61, 0x62, 0x63, 0x64, 0x65, 0x2E, 0x66, 0x67]" 4
      "[[0x61, 0x62, 0x63, 0x64]]"] r
  show ?thesis by simp
qed

text \<open>
  C6 (acceptance rule). In the branch where the budget does not reach the end of
  the text, let \<open>endIndex\<close> be the provisional end offset, \<open>potentialChunk\<close> the
  provisional fragment and \<open>splitPoint\<close> the result of the search on it, strictly
  inside it. Then the pass returns \<open>startIndex + splitPoint\<close> (which is less than
  \<open>endIndex\<close>) if the split point is greater than half the byte length of the
  fragment or the fragment is shorter than 100 bytes, and \<open>endIndex\<close> otherwise.
\<close>

theorem acceptance_rule:
  assumes "int64 (startIndex + maxSize) < len text"
    and "hardEnd text startIndex (int64 (startIndex + maxSize)) = Inr endIndex"
    and "slice text startIndex endIndex = Inr potentialChunk"
    and "findSplitPoint potentialChunk = Inr splitPoint"
    and "0 < splitPoint" and "splitPoint < len potentialChunk"
  shows "chunkEnd text maxSize startIndex =
           Inr (if len potentialChunk < 2 * splitPoint \<or> len potentialChunk < 100
                then startIndex + splitPoint else endIndex) \<and>
         startIndex + splitPoint < endIndex"
proof -
  have half: "splitPoint > len potentialChunk div 2 \<longleftrightarrow> len potentialChunk < 2 * splitPoint"
    by linarith
  from assms(3) have "len potentialChunk = endIndex - startIndex"
    by (auto simp: slice_def split: if_splits)
  with assms(6) have "startIndex + splitPoint < endIndex" by simp
  moreover have "chunkEnd text maxSize startIndex =
           Inr (if len potentialChunk < 2 * splitPoint \<or> len potentialChunk < 100
                then startIndex + splitPoint else endIndex)"
    using assms by (simp add: chunkEnd_def refineEnd_def half del: length_take)
  ultimately show ?thesis by simp
qed

text \<open>
  Two runs of the rule. The text \<open>ab.cdef\<close> with budget 4: the fragment \<open>ab.c\<close> is
  short and the split point 3 is accepted. A text of 50 letters, a \<open>.\<close> and 100
  letters with budget 150: the fragment has 150 bytes, the split point 51 is not in
  its back half, and the end offset 150 is kept.
\<close>

theorem acceptance_rule_witness:
  "(int64 (0 + 4) < len [0x61, 0x62, 0x2E, 0x63, 0x64, 0x65, 0x66 :: byte] \<and>
    hardEnd [0x61, 0x62, 0x2E, 0x63, 0x64, 0x65, 0x66] 0 (int64 (0 + 4)) = Inr 4 \<and>
    slice [0x61, 0x62, 0x2E, 0x63, 0x64, 0x65, 0x66 :: byte] 0 4 = Inr [0x61, 0x62, 0x2E, 0x63] \<and>
    findSplitPoint [0x61, 0x62, 0x2E, 0x63] = Inr 3 \<and>
    chunkEnd [0x61, 0x62, 0x2E, 0x63, 0x64, 0x65, 0x66] 4 0 = Inr 3) \<and>
   (int64 (0 + 150) < len (replicate 50 0x61 @ [0x2E] @ replicate 100 (0x61 :: byte)) \<and>
    hardEnd (replicate 50 0x61 @ [0x2E] @ replicate 100 0x61) 0 (int64 (0 + 150)) = Inr 150 \<and>
    slice (replicate 50 0x61 @ [0x2E] @ replicate 100 (0x61 :: byte)) 0 150
      = Inr (replicate 50 0x61 @ [0x2E] @ replicate 99 0x61) \<and>
    findSplitPoint (replicate 50 0x61 @ [0x2E] @ replicate 99 0x61) = Inr 51 \<and>
    chunkEnd (replicate 50 0x61 @ [0x2E] @ replicate 100 0x61) 150 0 = Inr 150)"
proof -
  have a1: "int64 (0 + 4) < len [0x61, 0x62, 0x2E, 0x63, 0x64, 0x65, 0x66 :: byte]"
    by (simp add: int64_def)
  have a2: "hardEnd [0x61, 0x62, 0x2E, 0x63, 0x64, 0x65, 0x66] 0 (int64 (0 + 4)) = Inr 4"
    by code_simp
  have a3: "slice [0x61, 0x62, 0x2E, 0x63, 0x64, 0x65, 0x66 :: byte] 0 4
              = Inr [0x61, 0x62, 0x2E, 0x63]"
    by (simp add: slice_def)
  have a4: "findSplitPoint [0x61, 0x62, 0x2E, 0x63] = Inr 3"
    by code_simp
  have b1: "int64 (0 + 150) < len (replicate 50 0x61 @ [0x2E] @ replicate 100 (0x61 :: byte))"
    by (simp add: int64_def)
  have b2: "hardEnd (replicate 50 0x61 @ [0x2E] @ replicate 100 0x61) 0 (int64 (0 + 150))
              = Inr 150"
    by code_simp
  have b3: "slice (replicate 50 0x61 @ [0x2E] @ replicate 100 (0x61 :: byte)) 0 150
              = Inr (replicate 50 0x61 @ [0x2E] @ replicate 99 0x61)"
    by code_simp
  have b4: "findSplitPoint (replicate 50 0x61 @ [0x2E] @ replicate 99 0x61) = Inr 51"
    by code_simp
  from acceptance_rule [OF a1 a2 a3 a4] acceptance_rule [OF b1 b2 b3 b4] a1 a2 a3 a4 b1 b2 b3 b4
  show ?thesis by simp
qed

text \<open>
  C8 (the budget of the caller). \<open>main\<close> passes the constant 200 to \<open>splitText\<close> and
  never reads \<open>cfg.MaxInputBytes\<close>. With \<open>maxInputBytes: 3\<close> in the configuration
  and the input \<open>abcdef\<close>, \<open>main\<close> gets the single fragment \<open>abcdef\<close>, where a budget
  of 3 bytes gives \<open>abc\<close> and \<open>def\<close>.
\<close>

theorem main_budget_is_200:
  "main_textChunks
     \<lparr>LanguageCode = [], VoiceName = [], InputFilename = [], OutputFilename = [],
      MaxInputBytes = 3, SpeakingRate = (1 :: real), Pitch = 0\<rparr>
     [0x61, 0x62, 0x63, 0x64, 0x65, 0x66]
     = Inr [[0x61, 0x62, 0x63, 0x64, 0x65, 0x66]] \<and>
   splitText [0x61, 0x62, 0x63, 0x64, 0x65, 0x66]
     (MaxInputBytes
        \<lparr>LanguageCode = [], VoiceName = [], InputFilename = [], OutputFilename = [],
         MaxInputBytes = 3, SpeakingRate = (1 :: real), Pitch = 0\<rparr>)
     = Inr [[0x61, 0x62, 0x63], [0x64, 0x65, 0x66]]"
proof -
  have "splitText [0x61, 0x62, 0x63, 0x64, 0x65, 0x66] 200
          = Inr [[0x61, 0x62, 0x63, 0x64, 0x65, 0x66]]"
    by code_simp
  moreover have "splitText [0x61, 0x62, 0x63, 0x64, 0x65, 0x66] 3
          = Inr [[0x61, 0x62, 0x63], [0x64, 0x65, 0x66]]"
    by code_simp
  ultimately show ?thesis by (simp add: main_textChunks_def)
qed

text \<open>
  C5 (the lookback window). \<open>findSplitPoint\<close> searches the last 100 bytes of the
  provisional fragment, not its last 100 characters. The text of 98 letters \<open>a\<close>, the
  ideographic full stop (bytes 98 to 100), 33 characters of three bytes each
  (U+3042) and a final \<open>a\<close>, with the budget 200 that \<open>main\<close> passes: the provisional
  fragment has 200 bytes and 132 characters, the full stop is among its last 100
  characters and a split after it, at offset 101, is in the back half. The last 100
  bytes begin with the last byte of the full stop, so the search finds no mark (it
  returns the length 200) and the fragment is cut at 200 bytes.
\<close>

theorem lookback_is_100_bytes:
  "findSplitPoint
     (replicate 98 0x61 @ [0xE3, 0x80, 0x82] @ concat (replicate 33 [0xE3, 0x81, 0x82]))
     = Inr 200 \<and>
   splitText
     (replicate 98 0x61 @ [0xE3, 0x80, 0x82] @ concat (replicate 33 [0xE3, 0x81, 0x82]) @ [0x61])
     200
     = Inr [replicate 98 0x61 @ [0xE3, 0x80, 0x82] @ concat (replicate 33 [0xE3, 0x81, 0x82]),
            [0x61]]"
proof -
  have "findSplitPoint
     (replicate 98 0x61 @ [0xE3, 0x80, 0x82] @ concat (replicate 33 [0xE3, 0x81, 0x82]))
     = Inr 200"
    by code_simp
  moreover have "splitText
     (replicate 98 0x61 @ [0xE3, 0x80, 0x82] @ concat (replicate 33 [0xE3, 0x81, 0x82]) @ [0x61])
     200
     = Inr [replicate 98 0x61 @ [0xE3, 0x80, 0x82] @ concat (replicate 33 [0xE3, 0x81, 0x82]),
            [0x61]]"
    by code_simp
  ultimately show ?thesis by simp
qed

section \<open>Claims about the boundary search\<close>

text \<open>
  C4 (choice within a tier), as the code has it. Let \<open>tier\<close> be the list of strong
  terminators, or the list of clause separators when no strong terminator occurs in
  the window. If the mark \<open>p\<close> of the tier occurs in the window and no mark that
  stands after \<open>p\<close> in the list of the tier occurs there, then the split point is
  placed immediately after the rightmost occurrence of \<open>p\<close> in the window: among
  the marks of a tier that occur, the one listed last decides, and among the
  occurrences of that mark the rightmost one.
\<close>

theorem findSplitPoint_tier_choice:
  assumes tier: "tier = strongPuncs \<or>
      (tier = clausePuncs \<and> (\<forall>q \<in> set strongPuncs. \<forall>j. \<not> occursAt (window s) q j))"
    and split: "tier = pre @ p # post"
    and occ: "occursAt (window s) p j0"
    and later: "\<forall>q \<in> set post. \<forall>j. \<not> occursAt (window s) q j"
  shows "\<exists>j. occursAt (window s) p j \<and> (\<forall>k>j. \<not> occursAt (window s) p k) \<and>
           findSplitPoint s = Inr (len s - len (window s) + int j + len p)"
proof -
  from tier have "set tier \<subseteq> set strongPuncs \<union> set clausePuncs" by auto
  then have "set (pre @ p # post) \<subseteq> set strongPuncs \<union> set clausePuncs"
    by (simp only: split)
  with puncs_nonempty have pne: "p \<noteq> []" and postne: "\<forall>q \<in> set post. q \<noteq> []"
    by auto
  from occ pne have found: "LastIndex (window s) p \<noteq> - 1"
    by (auto simp: LastIndex_absent)
  from later postne have post: "\<forall>q \<in> set post. q \<noteq> [] \<and> LastIndex (window s) q = - 1"
    by (simp add: LastIndex_absent)
  have fold_tier: "fold (puncStep s (len (window s)) (window s)) tier best = markEnd s p"
    for best unfolding split by (rule fold_puncStep_last [OF post pne found])
  have pos: "markEnd s p \<noteq> - 1" using markEnd_nonneg [OF pne found] by simp
  have "findSplitPoint s = Inr (markEnd s p)"
  proof -
    from tier consider "tier = strongPuncs"
      | "tier = clausePuncs" "\<forall>q \<in> set strongPuncs. \<forall>j. \<not> occursAt (window s) q j"
      by blast
    then show ?thesis
    proof cases
      case 1
      with fold_tier [of "- 1"] pos show ?thesis
        by (simp add: findSplitPoint_window Let_def)
    next
      case 2
      with puncs_nonempty
      have "\<forall>q \<in> set strongPuncs. q \<noteq> [] \<and> LastIndex (window s) q = - 1"
        by (simp add: LastIndex_absent)
      then have "fold (puncStep s (len (window s)) (window s)) strongPuncs (- 1) = - 1"
        by (rule fold_puncStep_absent)
      with fold_tier [of "- 1"] pos 2(1) show ?thesis
        by (simp add: findSplitPoint_window Let_def)
    qed
  qed
  moreover from LastIndex_present [OF pne found] obtain j where
    "LastIndex (window s) p = int j" "occursAt (window s) p j"
    "\<forall>k>j. \<not> occursAt (window s) p k" by blast
  ultimately show ?thesis unfolding markEnd_def by auto
qed

text \<open>
  The fragment \<open>a?b.c\<close>: the mark \<open>?\<close> is the last of the strong terminators, it
  occurs at offset 1, and the split point is 2.
\<close>

theorem findSplitPoint_tier_choice_witness:
  "strongPuncs = [[0x0A], [0xE3, 0x80, 0x82], [0xEF, 0xBC, 0x81], [0xEF, 0xBC, 0x9F],
      [0x2E], [0x21]] @ [0x3F] # [] \<and>
   occursAt (window [0x61, 0x3F, 0x62, 0x2E, 0x63]) [0x3F] 1 \<and>
   (\<exists>j. occursAt (window [0x61, 0x3F, 0x62, 0x2E, 0x63]) [0x3F] j \<and>
        findSplitPoint [0x61, 0x3F, 0x62, 0x2E, 0x63]
          = Inr (len [0x61, 0x3F, 0x62, 0x2E, 0x63 :: byte]
                 - len (window [0x61, 0x3F, 0x62, 0x2E, 0x63]) + int j + len [0x3F :: byte])) \<and>
   findSplitPoint [0x61, 0x3F, 0x62, 0x2E, 0x63] = Inr 2"
proof -
  have t: "strongPuncs = strongPuncs \<or>
      (strongPuncs = clausePuncs \<and>
       (\<forall>q \<in> set strongPuncs. \<forall>j. \<not> occursAt (window [0x61, 0x3F, 0x62, 0x2E, 0x63]) q j))"
    by simp
  have s: "strongPuncs = [[0x0A], [0xE3, 0x80, 0x82], [0xEF, 0xBC, 0x81], [0xEF, 0xBC, 0x9F],
      [0x2E], [0x21]] @ [0x3F] # []"
    by (simp add: strongPuncs_def)
  have o: "occursAt (window [0x61, 0x3F, 0x62, 0x2E, 0x63]) [0x3F] 1"
    by (simp add: occursAt_def window_def)
  have l: "\<forall>q \<in> set []. \<forall>j. \<not> occursAt (window [0x61, 0x3F, 0x62, 0x2E, 0x63]) q j"
    by simp
  have e: "findSplitPoint [0x61, 0x3F, 0x62, 0x2E, 0x63] = Inr 2"
    by code_simp
  from findSplitPoint_tier_choice [OF t s o l] s o e show ?thesis by blast
qed

text \<open>
  C4 as the specification states it (the rightmost match among all marks of the
  tier wins) fails on the fragment \<open>a?b.c\<close>: both \<open>?\<close> and \<open>.\<close> are strong terminators,
  \<open>.\<close> at offset 3 is the one closest to the end of the window, and the split point
  is 2, after the \<open>?\<close>, not 4.
\<close>

theorem rightmost_tiebreak_counterexample:
  "[0x3F] \<in> set strongPuncs \<and> [0x2E] \<in> set strongPuncs \<and>
   occursAt (window [0x61, 0x3F, 0x62, 0x2E, 0x63]) [0x3F] 1 \<and>
   occursAt (window [0x61, 0x3F, 0x62, 0x2E, 0x63]) [0x2E] 3 \<and>
   findSplitPoint [0x61, 0x3F, 0x62, 0x2E, 0x63] = Inr 2 \<and>
   findSplitPoint [0x61, 0x3F, 0x62, 0x2E, 0x63] \<noteq> Inr 4"
proof -
  have "findSplitPoint [0x61, 0x3F, 0x62, 0x2E, 0x63] = Inr 2"
    by code_simp
  then show ?thesis
    by (simp add: strongPuncs_def occursAt_def window_def)
qed

end
